theory Spec2Isabelle
  imports Main "HOL-Library.Word" "HOL-Library.Finite_Map"
begin

section \<open>Values and COPY text escaping (package output)\<close>

text \<open>
  A Go value of type \<open>any\<close> as \<open>EscapeCopyValue\<close> distinguishes it, one constructor
  per branch of its type switch and in the order of that switch. The library calls whose
  result the switch passes on are carried by the value: \<open>Time s\<close> holds the text that
  \<open>v.Format("2006-01-02 15:04:05.999999-07")\<close> yields, \<open>Stringer s\<close> the text of
  \<open>v.String()\<close>, and \<open>Other s\<close> the text of \<open>fmt.Sprintf("%v", v)\<close>.
  A Go string is the sequence of characters that \<open>range s\<close> visits.
\<close>

datatype any = Nil
  | Bool bool
  | Bytes "8 word list"
  | Time string
  | Str string
  | Stringer string
  | Other string

abbreviation backslash :: char where "backslash \<equiv> CHR 0x5C"
abbreviation newline :: char where "newline \<equiv> CHR 0x0A"
abbreviation carriage_return :: char where "carriage_return \<equiv> CHR 0x0D"
abbreviation tab :: char where "tab \<equiv> CHR 0x09"

text \<open>\<open>escapeString\<close>: the loop over the runes of \<open>s\<close>, writing to the builder.\<close>

fun escapeString :: "string \<Rightarrow> string" where
  "escapeString [] = []"
| "escapeString (r # s) =
     (if r = backslash then [backslash, backslash]
      else if r = newline then [backslash, CHR ''n'']
      else if r = carriage_return then [backslash, CHR ''r'']
      else if r = tab then [backslash, CHR ''t'']
      else [r]) @ escapeString s"

text \<open>
  \<open>hex.EncodeToString\<close> of the Go library: two lower-case digits per byte, the high
  nibble first.
\<close>

definition hextable :: string where
  "hextable = ''0123456789abcdef''"

definition hexByte :: "8 word \<Rightarrow> string" where
  "hexByte b = [hextable ! (unat b div 16), hextable ! (unat b mod 16)]"

definition hexEncodeToString :: "8 word list \<Rightarrow> string" where
  "hexEncodeToString bs = concat (map hexByte bs)"

text \<open>
  \<open>EscapeCopyValue\<close>: the nil test, then the type switch. The raw string literal
  of the byte-slice branch is backslash, backslash, x.
\<close>

fun EscapeCopyValue :: "any \<Rightarrow> string" where
  "EscapeCopyValue Nil = [backslash, CHR ''N'']"
| "EscapeCopyValue (Bool v) = (if v then ''t'' else ''f'')"
| "EscapeCopyValue (Bytes v) = [backslash, backslash, CHR ''x''] @ hexEncodeToString v"
| "EscapeCopyValue (Time s) = escapeString s"
| "EscapeCopyValue (Str s) = escapeString s"
| "EscapeCopyValue (Stringer s) = escapeString s"
| "EscapeCopyValue (Other s) = escapeString s"

subsection \<open>Reading a COPY text field back\<close>









section \<open>Schema (package schema)\<close>

record Column =
  Name :: string
  DataType :: string
  Nullable :: bool
  OrdPos :: int

record PrimaryKey =
  PKColumns :: "string list"

text \<open>\<open>VirtualType\<close> is a Go string type with three named constants.\<close>

type_synonym VirtualType = string

definition VirtualNone :: VirtualType where "VirtualNone = []"
definition VirtualArray :: VirtualType where "VirtualArray = ''array''"
definition VirtualJSON :: VirtualType where "VirtualJSON = ''json''"

record ForeignKey =
  FKName :: string
  ChildSchema :: string
  ChildTable :: string
  ChildColumns :: "string list"
  ParentSchema :: string
  ParentTable :: string
  ParentColumns :: "string list"
  IsSelfRef :: bool
  Virtual :: VirtualType
  JSONPath :: string

text \<open>The pointer field \<open>PrimaryKey\<close> of a table is nil or a primary key.\<close>

record Table =
  Schema :: string
  TableName :: string
  Columns :: "Column list"
  PrimaryKey :: "PrimaryKey option"
  ForeignKeys :: "ForeignKey list"

definition FullName :: "Table \<Rightarrow> string" where
  "FullName t = Schema t @ ''.'' @ TableName t"

definition ColumnNames :: "Table \<Rightarrow> string list" where
  "ColumnNames t = map Name (Columns t)"

section \<open>Query builder (package extract)\<close>

text \<open>The decimal text of an integer, as the verb \<open>%d\<close> prints it.\<close>

fun showNat :: "nat \<Rightarrow> string" where
  "showNat n =
     (if n < 10 then [''0123456789'' ! n]
      else showNat (n div 10) @ [''0123456789'' ! (n mod 10)])"

definition itoa :: "int \<Rightarrow> string" where
  "itoa i = (if i < 0 then CHR ''-'' # showNat (nat (- i)) else showNat (nat i))"

text \<open>\<open>strings.Join\<close>.\<close>

fun Join :: "string list \<Rightarrow> string \<Rightarrow> string" where
  "Join [] sep = []"
| "Join [x] sep = x"
| "Join (x # y # xs) sep = x @ sep @ Join (y # xs) sep"

text \<open>An index out of range stops a Go program with a run-time panic.\<close>

datatype panic = IndexOutOfRange

definition buildRootQuery :: "Table \<Rightarrow> string \<Rightarrow> string" where
  "buildRootQuery table where' =
     (let q = ''SELECT * FROM '' @ FullName table
      in if where' \<noteq> [] then q @ '' WHERE '' @ where' else q)"

text \<open>
  \<open>isFKNullable\<close>: the map from column name to column is filled in column order, a
  later column of the same name replacing an earlier one; then the child columns are
  searched for one that is present and nullable.
\<close>

definition colMap :: "Table \<Rightarrow> (string \<rightharpoonup> Column)" where
  "colMap table = fold (\<lambda>c m. m(Name c \<mapsto> c)) (Columns table) Map.empty"

fun anyNullable :: "(string \<rightharpoonup> Column) \<Rightarrow> string list \<Rightarrow> bool" where
  "anyNullable m [] = False"
| "anyNullable m (colName # rest) =
     (case m colName of
        Some col \<Rightarrow> if Nullable col then True else anyNullable m rest
      | None \<Rightarrow> anyNullable m rest)"

definition isFKNullable :: "Table \<Rightarrow> ForeignKey \<Rightarrow> bool" where
  "isFKNullable table fk = anyNullable (colMap table) (ChildColumns fk)"

text \<open>
  \<open>buildSingleColumnIN\<close>. The loop over the (capped) key tuples yields the
  placeholders, the bound arguments and the next parameter index; \<open>pk[0]\<close> of an
  empty tuple and \<open>fk.ChildColumns[0]\<close> of an empty column list panic.
\<close>

fun singleLoop :: "any list list \<Rightarrow> int \<Rightarrow> panic + (string list \<times> any list \<times> int)" where
  "singleLoop [] argIdx = Inr ([], [], argIdx)"
| "singleLoop (pk # pks) argIdx =
     (case pk of
        [] \<Rightarrow> Inl IndexOutOfRange
      | v # _ \<Rightarrow>
          (case singleLoop pks (argIdx + 1) of
             Inl e \<Rightarrow> Inl e
           | Inr (placeholders, args, next) \<Rightarrow>
               Inr ((''$'' @ itoa argIdx) # placeholders, v # args, next)))"

definition capPKs :: "any list list \<Rightarrow> any list list" where
  "capPKs pks = (if length pks > 10000 then take 10000 pks else pks)"

definition buildSingleColumnIN ::
  "ForeignKey \<Rightarrow> any list list \<Rightarrow> bool \<Rightarrow> int \<Rightarrow> panic + (string \<times> any list \<times> int)" where
  "buildSingleColumnIN fk pks nullable argIdx =
     (case ChildColumns fk of
        [] \<Rightarrow> Inl IndexOutOfRange
      | col # _ \<Rightarrow>
          (case singleLoop (capPKs pks) argIdx of
             Inl e \<Rightarrow> Inl e
           | Inr (placeholders, args, next) \<Rightarrow>
               (let cond = col @ '' IN ('' @ Join placeholders '', '' @ '')''
                in Inr (if nullable then ''('' @ cond @ '' OR '' @ col @ '' IS NULL)'' else cond,
                        args, next))))"

text \<open>
  \<open>buildCompositeIN\<close>. The inner loop runs over the child columns with index \<open>j\<close>
  and binds \<open>pk[j]\<close>, or nil when the tuple is too short; the outer loop makes one
  parenthesised tuple for each (capped) key tuple.
\<close>

fun tupleLoop :: "string list \<Rightarrow> any list \<Rightarrow> nat \<Rightarrow> int \<Rightarrow> string list \<times> any list \<times> int" where
  "tupleLoop [] pk j argIdx = ([], [], argIdx)"
| "tupleLoop (c # cs) pk j argIdx =
     (case tupleLoop cs pk (j + 1) (argIdx + 1) of
        (placeholders, args, next) \<Rightarrow>
          ((''$'' @ itoa argIdx) # placeholders,
           (if j < length pk then pk ! j else Nil) # args, next))"

fun compositeLoop :: "string list \<Rightarrow> any list list \<Rightarrow> int \<Rightarrow> string list \<times> any list \<times> int" where
  "compositeLoop cols [] argIdx = ([], [], argIdx)"
| "compositeLoop cols (pk # pks) argIdx =
     (case tupleLoop cols pk 0 argIdx of
        (placeholders, args1, mid) \<Rightarrow>
          (case compositeLoop cols pks mid of
             (tuples, args2, next) \<Rightarrow>
               ((''('' @ Join placeholders '', '' @ '')'') # tuples, args1 @ args2, next)))"

definition buildCompositeIN ::
  "ForeignKey \<Rightarrow> any list list \<Rightarrow> bool \<Rightarrow> int \<Rightarrow> string \<times> any list \<times> int" where
  "buildCompositeIN fk pks nullable argIdx =
     (let cols = Join (ChildColumns fk) '', ''
      in case compositeLoop (ChildColumns fk) (capPKs pks) argIdx of
           (tuples, args, next) \<Rightarrow>
             (let cond = ''('' @ cols @ '') IN ('' @ Join tuples '', '' @ '')''
              in (if nullable
                  then ''('' @ cond @ '' OR (''
                         @ Join (map (\<lambda>c. c @ '' IS NULL'') (ChildColumns fk)) '' AND '' @ ''))''
                  else cond,
                  args, next)))"

text \<open>
  \<open>buildChildQuery\<close>. \<open>childStep\<close> is the body of the loop over the foreign keys of
  the table, on the state (conditions, args, argIdx); \<open>parentKeyOf\<close> is the key it looks
  up in the map of collected parent keys. The parameter \<open>g\<close> of the source is unused.
\<close>

definition parentKeyOf :: "ForeignKey \<Rightarrow> string" where
  "parentKeyOf fk = ParentSchema fk @ ''.'' @ ParentTable fk"

definition childStep ::
  "Table \<Rightarrow> (string \<rightharpoonup> any list list) \<Rightarrow> ForeignKey \<Rightarrow> string list \<times> any list \<times> int
     \<Rightarrow> panic + (string list \<times> any list \<times> int)" where
  "childStep table parentPKs fk st =
     (case st of (conditions, args, argIdx) \<Rightarrow>
        if IsSelfRef fk then Inr st
        else case parentPKs (parentKeyOf fk) of
          None \<Rightarrow> Inr st
        | Some pks \<Rightarrow>
            if length pks = 0 then Inr st
            else let nullable = isFKNullable table fk
              in if length (ChildColumns fk) = 1
                 then (case buildSingleColumnIN fk pks nullable argIdx of
                         Inl e \<Rightarrow> Inl e
                       | Inr (cond, newArgs, nextIdx) \<Rightarrow>
                           Inr (conditions @ [cond], args @ newArgs, nextIdx))
                 else (case buildCompositeIN fk pks nullable argIdx of
                         (cond, newArgs, nextIdx) \<Rightarrow>
                           Inr (conditions @ [cond], args @ newArgs, nextIdx)))"

fun childLoop ::
  "Table \<Rightarrow> (string \<rightharpoonup> any list list) \<Rightarrow> ForeignKey list \<Rightarrow> string list \<times> any list \<times> int
     \<Rightarrow> panic + (string list \<times> any list \<times> int)" where
  "childLoop table parentPKs [] st = Inr st"
| "childLoop table parentPKs (fk # fks) st =
     (case childStep table parentPKs fk st of
        Inl e \<Rightarrow> Inl e
      | Inr st' \<Rightarrow> childLoop table parentPKs fks st')"

definition buildChildQuery ::
  "Table \<Rightarrow> (string \<rightharpoonup> any list list) \<Rightarrow> panic + (string \<times> any list)" where
  "buildChildQuery table parentPKs =
     (case childLoop table parentPKs (ForeignKeys table) ([], [], 1) of
        Inl e \<Rightarrow> Inl e
      | Inr (conditions, args, argIdx) \<Rightarrow>
          if length conditions = 0 then Inr ([], [])
          else Inr (''SELECT * FROM '' @ FullName table @ '' WHERE ''
                      @ Join conditions '' AND '', args))"

subsection \<open>The conditions as the specification writes them\<close>

text \<open>
  The specification's \<open>col IN ($n, $n+1, \<dots>)\<close> with \<open>m\<close> placeholders from index
  \<open>n\<close> on, its \<open>(col1, col2, \<dots>) IN (($a,$b,\<dots>), \<dots>)\<close> with \<open>m\<close> tuples, the
  placeholders numbered through, a key tuple padded with nil to a given arity, and the
  two forms of the nullable wrapping.
\<close>

definition spec_singleIN :: "string \<Rightarrow> int \<Rightarrow> nat \<Rightarrow> string" where
  "spec_singleIN col n m =
     col @ '' IN ('' @ Join (map (\<lambda>i. ''$'' @ itoa (n + int i)) [0..<m]) '', '' @ '')''"

definition spec_tuple :: "nat \<Rightarrow> int \<Rightarrow> string" where
  "spec_tuple arity n =
     ''('' @ Join (map (\<lambda>k. ''$'' @ itoa (n + int k)) [0..<arity]) '', '' @ '')''"

definition spec_compositeIN :: "string list \<Rightarrow> int \<Rightarrow> nat \<Rightarrow> string" where
  "spec_compositeIN cols n m =
     ''('' @ Join cols '', '' @ '') IN (''
       @ Join (map (\<lambda>i. spec_tuple (length cols) (n + int (i * length cols))) [0..<m]) '', ''
       @ '')''"

definition padPK :: "nat \<Rightarrow> any list \<Rightarrow> any list" where
  "padPK arity pk = map (\<lambda>k. if k < length pk then pk ! k else Nil) [0..<arity]"

definition spec_wrapSingle :: "string \<Rightarrow> string \<Rightarrow> string" where
  "spec_wrapSingle cond col = ''('' @ cond @ '' OR '' @ col @ '' IS NULL)''"

definition spec_wrapComposite :: "string \<Rightarrow> string list \<Rightarrow> string" where
  "spec_wrapComposite cond cols =
     ''('' @ cond @ '' OR ('' @ Join (map (\<lambda>c. c @ '' IS NULL'') cols) '' AND '' @ ''))''"

text \<open>
  The specification's JSON form \<open>(col->>'<jsonPath>') IN ($n, $n+1, \<dots>)\<close>.
\<close>

definition spec_jsonIN :: "string \<Rightarrow> string \<Rightarrow> int \<Rightarrow> nat \<Rightarrow> string" where
  "spec_jsonIN col jsonPath n m =
     ''('' @ col @ ''->>'' @ [CHR 0x27] @ jsonPath @ [CHR 0x27] @ '') IN (''
       @ Join (map (\<lambda>i. ''$'' @ itoa (n + int i)) [0..<m]) '', '' @ '')''"

subsection \<open>The scenarios of the specification as data\<close>

text \<open>
  Scenario 2: \<open>posts(id, author_id)\<close> with a nullable foreign key to \<open>users\<close>.
  Scenario 3: the composite foreign key of \<open>order_lines\<close> to \<open>orders\<close>.
  Scenario 6: \<open>events(id, meta)\<close> with the virtual JSON relation
  \<open>meta->>'user_id'\<close> to \<open>users.id\<close>, as \<open>Build\<close> injects it.
\<close>

definition posts_author_fk :: ForeignKey where
  "posts_author_fk =
     \<lparr>FKName = ''posts_author_id_fkey'', ChildSchema = ''public'', ChildTable = ''posts'',
      ChildColumns = [''author_id''], ParentSchema = ''public'', ParentTable = ''users'',
      ParentColumns = [''id''], IsSelfRef = False, Virtual = VirtualNone, JSONPath = []\<rparr>"

definition posts_table :: Table where
  "posts_table =
     \<lparr>Schema = ''public'', TableName = ''posts'',
      Columns = [\<lparr>Name = ''id'', DataType = ''int4'', Nullable = False, OrdPos = 1\<rparr>,
                 \<lparr>Name = ''author_id'', DataType = ''int4'', Nullable = True, OrdPos = 2\<rparr>],
      PrimaryKey = Some \<lparr>PKColumns = [''id'']\<rparr>,
      ForeignKeys = [posts_author_fk]\<rparr>"

definition order_lines_fk :: ForeignKey where
  "order_lines_fk =
     \<lparr>FKName = ''order_lines_fkey'', ChildSchema = ''public'', ChildTable = ''order_lines'',
      ChildColumns = [''tenant_id'', ''order_no''], ParentSchema = ''public'',
      ParentTable = ''orders'', ParentColumns = [''tenant_id'', ''order_no''],
      IsSelfRef = False, Virtual = VirtualNone, JSONPath = []\<rparr>"

definition events_user_fk :: ForeignKey where
  "events_user_fk =
     \<lparr>FKName = ''virtual_events_meta_users'', ChildSchema = ''public'', ChildTable = ''events'',
      ChildColumns = [''meta''], ParentSchema = ''public'', ParentTable = ''users'',
      ParentColumns = [''id''], IsSelfRef = False, Virtual = VirtualJSON,
      JSONPath = ''user_id''\<rparr>"

definition events_table :: Table where
  "events_table =
     \<lparr>Schema = ''public'', TableName = ''events'',
      Columns = [\<lparr>Name = ''id'', DataType = ''int4'', Nullable = False, OrdPos = 1\<rparr>,
                 \<lparr>Name = ''meta'', DataType = ''jsonb'', Nullable = False, OrdPos = 2\<rparr>],
      PrimaryKey = Some \<lparr>PKColumns = [''id'']\<rparr>,
      ForeignKeys = [events_user_fk]\<rparr>"

section \<open>The foreign-key graph and its topological order (package graph)\<close>

text \<open>
  A Go map is a partial function; reading a missing key of a map of slices gives the
  nil slice, and reading a missing key of a map of integers gives 0.
\<close>

record Edge =
  FK :: ForeignKey
  EdgeChildTable :: string
  EdgeParentTable :: string

record Graph =
  Tables :: "string \<rightharpoonup> Table"
  Edges :: "Edge list"
  SelfRefs :: "string \<rightharpoonup> ForeignKey list"
  Children :: "string \<rightharpoonup> string list"
  Parents :: "string \<rightharpoonup> string list"
  Adjacency :: "string \<rightharpoonup> (string \<rightharpoonup> bool)"

definition sliceAt :: "('k \<rightharpoonup> 'v list) \<Rightarrow> 'k \<Rightarrow> 'v list" where
  "sliceAt m k = (case m k of None \<Rightarrow> [] | Some xs \<Rightarrow> xs)"

record TopoResult =
  Order :: "string list"
  HasCycle :: bool
  CycleTables :: "string list"

definition intAt :: "(string, int) fmap \<Rightarrow> string \<Rightarrow> int" where
  "intAt m k = (case fmlookup m k of None \<Rightarrow> 0 | Some n \<Rightarrow> n)"

definition addLocalEdge ::
  "string list \<Rightarrow> string \<Rightarrow> string \<Rightarrow> (string \<rightharpoonup> string list) \<times> (string, int) fmap
     \<Rightarrow> (string \<rightharpoonup> string list) \<times> (string, int) fmap" where
  "addLocalEdge tables t p st =
     (case st of (localChildren, inDegree) \<Rightarrow>
        if p \<in> set tables
        then (localChildren(p \<mapsto> sliceAt localChildren p @ [t]),
              fmupd t (intAt inDegree t + 1) inDegree)
        else st)"

definition localEdges ::
  "Graph \<Rightarrow> string list \<Rightarrow> (string \<rightharpoonup> string list) \<times> (string, int) fmap" where
  "localEdges g tables =
     fold (\<lambda>t st. fold (addLocalEdge tables t) (sliceAt (Parents g) t) st) tables
       (Map.empty, fold (\<lambda>t m. fmupd t 0 m) tables fmempty)"

definition relax :: "string \<Rightarrow> (string, int) fmap \<times> string list \<Rightarrow> (string, int) fmap \<times> string list" where
  "relax child st =
     (case st of (inDegree, queue) \<Rightarrow>
        let inDegree' = fmupd child (intAt inDegree child - 1) inDegree
        in if intAt inDegree' child = 0 then (inDegree', queue @ [child]) else (inDegree', queue))"

definition pending :: "(string, int) fmap \<Rightarrow> string set" where
  "pending inDegree = {t \<in> fmdom' inDegree. 0 < intAt inDegree t}"

lemma finite_pending: "finite (pending m)"
  unfolding pending_def by simp

lemma relax_measure:
  "relax c (m, q) = (m', q') \<Longrightarrow> length q' + card (pending m') \<le> length q + card (pending m)"
proof -
  assume r: "relax c (m, q) = (m', q')"
  let ?d = "intAt m c"
  have m': "m' = fmupd c (?d - 1) m" using r by (auto simp: relax_def Let_def split: if_splits)
  have other: "\<And>t. t \<noteq> c \<Longrightarrow> t \<in> pending m' \<longleftrightarrow> t \<in> pending m"
    by (auto simp: m' pending_def intAt_def)
  show ?thesis
  proof (cases "?d = 1")
    case True
    then have q': "q' = q @ [c]" using r by (auto simp: relax_def Let_def intAt_def split: if_splits)
    have "c \<in> pending m" using True by (auto simp: pending_def intAt_def fmdom'I split: option.splits)
    moreover have "pending m' = pending m - {c}"
      using other True by (auto simp: m' pending_def intAt_def)
    ultimately have "card (pending m') = card (pending m) - 1" "card (pending m) > 0"
      using finite_pending[of m] by (auto simp: card_gt_0_iff)
    then show ?thesis using q' by simp
  next
    case False
    then have q': "q' = q" using r by (auto simp: relax_def Let_def intAt_def split: if_splits)
    have "pending m' \<subseteq> pending m"
    proof
      fix t assume t: "t \<in> pending m'"
      show "t \<in> pending m"
      proof (cases "t = c")
        case True
        with t have "0 < ?d - 1" by (simp add: m' pending_def intAt_def)
        then have "0 < ?d" by simp
        then show ?thesis using True by (auto simp: pending_def intAt_def fmdom'I split: option.splits)
      next
        case False
        then show ?thesis using other t by simp
      qed
    qed
    then have "card (pending m') \<le> card (pending m)"
      using finite_pending by (simp add: card_mono)
    then show ?thesis using q' by simp
  qed
qed

lemma fold_relax_measure:
  "fold relax cs (m, q) = (m', q') \<Longrightarrow> length q' + card (pending m') \<le> length q + card (pending m)"
proof (induction cs arbitrary: m q)
  case Nil
  then show ?case by simp
next
  case (Cons c cs)
  obtain m1 q1 where s: "relax c (m, q) = (m1, q1)" by (cases "relax c (m, q)")
  with Cons.prems have "fold relax cs (m1, q1) = (m', q')" by simp
  from Cons.IH[OF this] relax_measure[OF s] show ?case by simp
qed

function kahnLoop ::
  "(string \<rightharpoonup> string list) \<Rightarrow> (string, int) fmap \<Rightarrow> string list \<Rightarrow> string list
     \<Rightarrow> string list \<times> (string, int) fmap" where
  "kahnLoop localChildren inDegree [] order = (order, inDegree)"
| "kahnLoop localChildren inDegree (node # queue) order =
     (case fold relax (sliceAt localChildren node) (inDegree, queue) of
        (inDegree', queue') \<Rightarrow> kahnLoop localChildren inDegree' queue' (order @ [node]))"
  by pat_completeness auto
termination
  by (relation "measure (\<lambda>(lc, m, q, ord). length q + card (pending m))")
    (auto dest: fold_relax_measure[OF sym])

definition TopoSort :: "Graph \<Rightarrow> string list \<Rightarrow> TopoResult" where
  "TopoSort g tables =
     (case localEdges g tables of (localChildren, inDegree) \<Rightarrow>
        case kahnLoop localChildren inDegree (filter (\<lambda>t. intAt inDegree t = 0) tables) [] of
          (order, inDegree') \<Rightarrow>
            if length order < length tables
            then \<lparr>Order = order, HasCycle = True,
                  CycleTables = filter (\<lambda>t. intAt inDegree' t > 0) tables\<rparr>
            else \<lparr>Order = order, HasCycle = False, CycleTables = []\<rparr>)"

definition TopoSortAll :: "string list \<Rightarrow> Graph \<Rightarrow> TopoResult" where
  "TopoSortAll keys g = TopoSort g keys"

text \<open>
  \<open>appearsBefore a b xs\<close>: \<open>a\<close> occurs in \<open>xs\<close> and \<open>b\<close> occurs somewhere after the
  first occurrence of \<open>a\<close>.
\<close>

fun appearsBefore :: "'a \<Rightarrow> 'a \<Rightarrow> 'a list \<Rightarrow> bool" where
  "appearsBefore a b [] = False"
| "appearsBefore a b (x # xs) = (if x = a then b \<in> set xs else appearsBefore a b xs)"

text \<open>Scenario 1: the chain \<open>orders \<rightarrow> users \<rightarrow> tenants\<close>; and two unrelated tables.\<close>

definition chain_graph :: Graph where
  "chain_graph =
     \<lparr>Tables = Map.empty, Edges = [], SelfRefs = Map.empty,
      Children = [''public.tenants'' \<mapsto> [''public.users''],
                  ''public.users'' \<mapsto> [''public.orders'']],
      Parents = [''public.users'' \<mapsto> [''public.tenants''],
                 ''public.orders'' \<mapsto> [''public.users'']],
      Adjacency = Map.empty\<rparr>"

section \<open>Self-reference query (package extract)\<close>

text \<open>
  \<open>buildSelfRefQuery\<close>. With one key column the seed loop is the loop of
  \<open>buildSingleColumnIN\<close> (placeholder, \<open>pk[0]\<close>, next index); with several it reads
  \<open>pk[j]\<close> for every key column and panics on a shorter tuple. The join conditions
  read \<open>fkParentCols[i]\<close> for every child column.
\<close>

fun seedTupleLoop :: "string list \<Rightarrow> any list \<Rightarrow> int \<Rightarrow> panic + (string list \<times> any list \<times> int)" where
  "seedTupleLoop [] pk argIdx = Inr ([], [], argIdx)"
| "seedTupleLoop (c # cs) pk argIdx =
     (case pk of
        [] \<Rightarrow> Inl IndexOutOfRange
      | v # vs \<Rightarrow>
          (case seedTupleLoop cs vs (argIdx + 1) of
             Inl e \<Rightarrow> Inl e
           | Inr (phs, args, next) \<Rightarrow> Inr ((''$'' @ itoa argIdx) # phs, v # args, next)))"

fun seedLoop :: "string list \<Rightarrow> any list list \<Rightarrow> int \<Rightarrow> panic + (string list \<times> any list \<times> int)" where
  "seedLoop pkCols [] argIdx = Inr ([], [], argIdx)"
| "seedLoop pkCols (pk # pks) argIdx =
     (case seedTupleLoop pkCols pk argIdx of
        Inl e \<Rightarrow> Inl e
      | Inr (phs, args1, mid) \<Rightarrow>
          (case seedLoop pkCols pks mid of
             Inl e \<Rightarrow> Inl e
           | Inr (tuples, args2, next) \<Rightarrow>
               Inr ((''('' @ Join phs '', '' @ '')'') # tuples, args1 @ args2, next)))"

fun joinCondLoop :: "string list \<Rightarrow> string list \<Rightarrow> panic + string list" where
  "joinCondLoop [] fkParentCols = Inr []"
| "joinCondLoop (c # cs) fkParentCols =
     (case fkParentCols of
        [] \<Rightarrow> Inl IndexOutOfRange
      | p # ps \<Rightarrow>
          (case joinCondLoop cs ps of
             Inl e \<Rightarrow> Inl e
           | Inr conds \<Rightarrow> Inr ((''t.'' @ p @ '' = r.'' @ c) # conds)))"

definition buildSelfRefQuery ::
  "Table \<Rightarrow> ForeignKey \<Rightarrow> any list list \<Rightarrow> panic + (string \<times> any list)" where
  "buildSelfRefQuery table fk seedPKs =
     (case PrimaryKey table of
        None \<Rightarrow> Inr ([], [])
      | Some pk \<Rightarrow>
          if length seedPKs = 0 then Inr ([], [])
          else
            (case (if length (PKColumns pk) = 1
                   then (case singleLoop seedPKs 1 of
                           Inl e \<Rightarrow> Inl e
                         | Inr (placeholders, args, next) \<Rightarrow>
                             Inr (hd (PKColumns pk) @ '' IN ('' @ Join placeholders '', '' @ '')'',
                                  args))
                   else (case seedLoop (PKColumns pk) seedPKs 1 of
                           Inl e \<Rightarrow> Inl e
                         | Inr (tuples, args, next) \<Rightarrow>
                             Inr (''('' @ Join (PKColumns pk) '', '' @ '') IN (''
                                    @ Join tuples '', '' @ '')'', args))) of
               Inl e \<Rightarrow> Inl e
             | Inr (seedCond, args) \<Rightarrow>
                 (case joinCondLoop (ChildColumns fk) (ParentColumns fk) of
                    Inl e \<Rightarrow> Inl e
                  | Inr joinConds \<Rightarrow>
                      Inr (''WITH RECURSIVE tree AS ('' @ [newline]
                            @ ''  SELECT t.* FROM '' @ FullName table @ '' t WHERE '' @ seedCond
                            @ [newline] @ ''  UNION ALL'' @ [newline]
                            @ ''  SELECT t.* FROM '' @ FullName table @ '' t JOIN tree r ON ''
                            @ Join joinConds '' AND '' @ [newline] @ '')'' @ [newline]
                            @ ''SELECT DISTINCT * FROM tree'',
                           args))))"

section \<open>Output writer (package output)\<close>

text \<open>
  The \<open>io.Writer\<close> behind the output writer: whether its \<open>n\<close>-th call, with a given
  text, fails. Every call is recorded, failed or not, so an empty record means that the
  writer was never invoked.
\<close>

datatype error = DbError string | WriteError string | Wrapped string error | Panicked panic

type_synonym ioWriter = "nat \<Rightarrow> string \<Rightarrow> string option"

definition fprint :: "ioWriter \<Rightarrow> string list \<Rightarrow> string \<Rightarrow> error option \<times> string list" where
  "fprint w written s = (map_option WriteError (w (length written) s), written @ [s])"

fun fprintAll :: "ioWriter \<Rightarrow> string list \<Rightarrow> string list \<Rightarrow> error option \<times> string list" where
  "fprintAll w written [] = (None, written)"
| "fprintAll w written (s # rest) =
     (case fprint w written s of
        (Some err, written') \<Rightarrow> (Some err, written')
      | (None, written') \<Rightarrow> fprintAll w written' rest)"

definition WriteHeader :: "ioWriter \<Rightarrow> string list \<Rightarrow> error option \<times> string list" where
  "WriteHeader w written =
     fprintAll w written
       [''BEGIN;'' @ [newline],
        ''SET session_replication_role = '' @ [CHR 0x27] @ ''replica'' @ [CHR 0x27] @ '';''
          @ [newline],
        [newline]]"

definition WriteFooter :: "ioWriter \<Rightarrow> string list \<Rightarrow> error option \<times> string list" where
  "WriteFooter w written =
     fprintAll w written
       [''SET session_replication_role = '' @ [CHR 0x27] @ ''origin'' @ [CHR 0x27] @ '';''
          @ [newline],
        ''COMMIT;'' @ [newline]]"

definition WriteTableData ::
  "ioWriter \<Rightarrow> string list \<Rightarrow> Table \<Rightarrow> any list list \<Rightarrow> error option \<times> string list" where
  "WriteTableData w written table rows =
     (if length rows = 0 then (None, written)
      else fprintAll w written
             ([''COPY '' @ FullName table @ '' ('' @ Join (ColumnNames table) '', ''
                 @ '') FROM stdin;'' @ [newline]]
              @ map (\<lambda>row. Join (map EscapeCopyValue row) [tab] @ [newline]) rows
              @ [[backslash, CHR ''.''] @ [newline], [newline]]))"

section \<open>Extractor (package extract)\<close>

text \<open>
  What a call of \<open>pool.Query\<close> and the iteration over its rows give: the query fails,
  or it yields rows, each of which \<open>rows.Values()\<close> reads or fails to read, and the
  final \<open>rows.Err()\<close>.
\<close>

datatype queryResult = QueryFailed string | QueryRows "(string + any list) list" "string option"

record Root =
  RootTable :: string
  Where :: string

record Config =
  Roots :: "Root list"

text \<open>
  The extractor. \<open>pool\<close> answers the \<open>n\<close>-th query of the run; \<open>fmtV\<close> is the text
  that the verb \<open>%v\<close> of package fmt gives for a slice of values. Beside the two maps of
  the source the state records what the run did: \<open>queried\<close> the queries sent with their
  results, \<open>stdout\<close> the lines of \<open>fmt.Printf\<close>, \<open>logged\<close> those of \<open>log.Printf\<close>.
\<close>

record Extractor =
  pool :: "nat \<Rightarrow> string \<Rightarrow> any list \<Rightarrow> queryResult"
  fmtV :: "any list \<Rightarrow> string"
  cfg :: Config
  graph :: Graph
  verbose :: bool
  dryRun :: bool
  collected :: "string \<rightharpoonup> any list list"
  collectedPKs :: "string \<rightharpoonup> any list list"
  queried :: "(string \<times> any list \<times> queryResult) list"
  stdout :: "string list"
  logged :: "string list"

definition New ::
  "(nat \<Rightarrow> string \<Rightarrow> any list \<Rightarrow> queryResult) \<Rightarrow> (any list \<Rightarrow> string) \<Rightarrow> Config \<Rightarrow> Graph
     \<Rightarrow> bool \<Rightarrow> bool \<Rightarrow> Extractor" where
  "New pool' fmtV' cfg' g verbose' dryRun' =
     \<lparr>pool = pool', fmtV = fmtV', cfg = cfg', graph = g, verbose = verbose', dryRun = dryRun',
      collected = Map.empty, collectedPKs = Map.empty, queried = [], stdout = [], logged = []\<rparr>"

definition printf :: "Extractor \<Rightarrow> string \<Rightarrow> Extractor" where
  "printf e s = e\<lparr>stdout := stdout e @ [s]\<rparr>"

definition Query :: "Extractor \<Rightarrow> string \<Rightarrow> any list \<Rightarrow> queryResult \<times> Extractor" where
  "Query e query args =
     (let r = pool e (length (queried e)) query args
      in (r, e\<lparr>queried := queried e @ [(query, args, r)]\<rparr>))"

text \<open>\<open>pkColumnIndexes\<close> and \<open>extractPK\<close>; the result is nil exactly for a table without key.\<close>

definition colIdx :: "Table \<Rightarrow> (string \<rightharpoonup> nat)" where
  "colIdx table =
     fold (\<lambda>(i, col) m. m(Name col \<mapsto> i)) (enumerate 0 (Columns table)) Map.empty"

definition pkColumnIndexes :: "Table \<Rightarrow> nat list option" where
  "pkColumnIndexes table =
     (case PrimaryKey table of
        None \<Rightarrow> None
      | Some pk \<Rightarrow>
          Some (map (\<lambda>col. case colIdx table col of None \<Rightarrow> 0 | Some i \<Rightarrow> i) (PKColumns pk)))"

definition extractPK :: "Table \<Rightarrow> any list \<Rightarrow> any list option" where
  "extractPK table values =
     (case pkColumnIndexes table of
        None \<Rightarrow> None
      | Some pkIdxs \<Rightarrow>
          Some (map (\<lambda>idx. if idx < length values then values ! idx else Nil) pkIdxs))"

definition addRow :: "Extractor \<Rightarrow> Table \<Rightarrow> any list \<Rightarrow> Extractor" where
  "addRow e table values =
     (let fullName = FullName table;
          e1 = e\<lparr>collected := (collected e)(fullName \<mapsto> sliceAt (collected e) fullName @ [values])\<rparr>
      in case extractPK table values of
           None \<Rightarrow> e1
         | Some pkVals \<Rightarrow>
             e1\<lparr>collectedPKs :=
                  (collectedPKs e1)(fullName \<mapsto> sliceAt (collectedPKs e1) fullName @ [pkVals])\<rparr>)"

text \<open>
  The loop \<open>for rows.Next()\<close> of \<open>extractRoot\<close> and \<open>extractChild\<close>: a row that cannot
  be read ends the function with the error, the rows before it stay collected.
\<close>

fun drainRows ::
  "Extractor \<Rightarrow> Table \<Rightarrow> (string + any list) list \<Rightarrow> error option \<times> Extractor" where
  "drainRows e table [] = (None, e)"
| "drainRows e table (Inl err # rest) = (Some (DbError err), e)"
| "drainRows e table (Inr values # rest) = drainRows (addRow e table values) table rest"

definition rowsLine :: "Extractor \<Rightarrow> Table \<Rightarrow> string" where
  "rowsLine e table =
     ''  -> '' @ itoa (int (length (sliceAt (collected e) (FullName table)))) @ '' rows''
       @ [newline]"

definition runQuery ::
  "Extractor \<Rightarrow> Table \<Rightarrow> string \<Rightarrow> any list \<Rightarrow> error option \<times> Extractor" where
  "runQuery e table query args =
     (case Query e query args of
        (QueryFailed err, e1) \<Rightarrow> (Some (DbError err), e1)
      | (QueryRows rs final, e1) \<Rightarrow>
          (case drainRows e1 table rs of
             (Some err, e2) \<Rightarrow> (Some err, e2)
           | (None, e2) \<Rightarrow>
               (map_option DbError final,
                if verbose e2 then printf e2 (rowsLine e2 table) else e2)))"

definition extractRoot :: "Extractor \<Rightarrow> Table \<Rightarrow> string \<Rightarrow> error option \<times> Extractor" where
  "extractRoot e table where' =
     (let query = buildRootQuery table where';
          e1 = (if verbose e \<or> dryRun e
                then printf e (''[root] '' @ FullName table @ '': '' @ query @ [newline])
                else e)
      in if dryRun e1 then (None, e1) else runQuery e1 table query [])"

definition extractChild :: "Extractor \<Rightarrow> Table \<Rightarrow> error option \<times> Extractor" where
  "extractChild e table =
     (case buildChildQuery table (collectedPKs e) of
        Inl p \<Rightarrow> (Some (Panicked p), e)
      | Inr (query, args) \<Rightarrow>
          if query = [] then (None, e)
          else
            (let e1 = (if verbose e \<or> dryRun e
                       then (let e' = printf e (''[child] '' @ FullName table @ '': '' @ query
                                                  @ [newline])
                             in if dryRun e'
                                then printf e' (''  args: '' @ fmtV e' args @ [newline])
                                else e')
                       else e)
             in if dryRun e1 then (None, e1) else runQuery e1 table query args))"

text \<open>
  \<open>fetchSelfRefRows\<close> collects the rows of the recursive query into a slice; its
  parameter \<open>verbose\<close> is \<open>e.verbose || e.dryRun\<close> at the only call.
\<close>

fun readAll :: "(string + any list) list \<Rightarrow> string + any list list" where
  "readAll [] = Inr []"
| "readAll (Inl err # rest) = Inl err"
| "readAll (Inr values # rest) =
     (case readAll rest of Inl err \<Rightarrow> Inl err | Inr result \<Rightarrow> Inr (values # result))"

definition fetchSelfRefRows ::
  "Extractor \<Rightarrow> Table \<Rightarrow> ForeignKey \<Rightarrow> any list list \<Rightarrow> bool
     \<Rightarrow> (error + any list list) \<times> Extractor" where
  "fetchSelfRefRows e table fk seedPKs verbose' =
     (case buildSelfRefQuery table fk seedPKs of
        Inl p \<Rightarrow> (Inl (Panicked p), e)
      | Inr (query, args) \<Rightarrow>
          if query = [] then (Inr [], e)
          else
            (let e1 = (if verbose'
                       then printf e (''  [self-ref] '' @ FullName table @ '': '' @ query
                                        @ '' (args: '' @ fmtV e args @ '')'' @ [newline])
                       else e)
             in case Query e1 query args of
                  (QueryFailed err, e2) \<Rightarrow>
                    (Inl (Wrapped (''self-ref query for '' @ FullName table) (DbError err)), e2)
                | (QueryRows rs final, e2) \<Rightarrow>
                    (case readAll rs of
                       Inl err \<Rightarrow> (Inl (DbError err), e2)
                     | Inr result \<Rightarrow>
                         (case final of
                            Some err \<Rightarrow> (Inl (DbError err), e2)
                          | None \<Rightarrow> (Inr result, e2)))))"

text \<open>
  \<open>extractSelfRef\<close>. The key under which a row is remembered is the \<open>%v\<close> text of its
  key tuple; \<open>pkSet\<close> holds the keys of the rows collected so far.
\<close>

definition pkKey :: "Extractor \<Rightarrow> Table \<Rightarrow> any list \<Rightarrow> string" where
  "pkKey e table row = fmtV e (case extractPK table row of None \<Rightarrow> [] | Some pk \<Rightarrow> pk)"

definition pkSet :: "Extractor \<Rightarrow> Table \<Rightarrow> string set" where
  "pkSet e table = set (map (pkKey e table) (sliceAt (collected e) (FullName table)))"

fun addNewRows :: "Extractor \<Rightarrow> Table \<Rightarrow> string set \<Rightarrow> any list list \<Rightarrow> Extractor" where
  "addNewRows e table existing [] = e"
| "addNewRows e table existing (row # rest) =
     (let key = pkKey e table row
      in if key \<notin> existing
         then addNewRows (addRow e table row) table (insert key existing) rest
         else addNewRows e table existing rest)"

fun selfRefLoop ::
  "Extractor \<Rightarrow> Table \<Rightarrow> any list list \<Rightarrow> ForeignKey list \<Rightarrow> error option \<times> Extractor" where
  "selfRefLoop e table seedPKs [] = (None, e)"
| "selfRefLoop e table seedPKs (fk # fks) =
     (case fetchSelfRefRows e table fk seedPKs (verbose e \<or> dryRun e) of
        (Inl err, e1) \<Rightarrow> (Some err, e1)
      | (Inr extraRows, e1) \<Rightarrow>
          (let e2 = addNewRows e1 table (pkSet e1 table) extraRows;
               e3 = (if verbose e2
                     then printf e2 (''  [self-ref] '' @ FullName table @ '': total ''
                            @ itoa (int (length (sliceAt (collected e2) (FullName table))))
                            @ '' rows after recursive'' @ [newline])
                     else e2)
           in selfRefLoop e3 table seedPKs fks))"

definition extractSelfRef ::
  "Extractor \<Rightarrow> Table \<Rightarrow> ForeignKey list \<Rightarrow> error option \<times> Extractor" where
  "extractSelfRef e table selfRefs =
     (let seedPKs = sliceAt (collectedPKs e) (FullName table)
      in if length seedPKs = 0 then (None, e) else selfRefLoop e table seedPKs selfRefs)"

text \<open>
  \<open>Extract\<close>. \<open>extractTable\<close> is the body of the first loop over the order and
  \<open>extractTables\<close> that loop; \<open>writeTables\<close> is the second loop. \<open>keys\<close> is the order
  in which \<open>TopoSortAll\<close> meets the keys of \<open>g.Tables\<close>, \<open>w\<close> the writer handed to
  \<open>Extract\<close>; the result holds the error, the extractor and the record of the calls
  made on the writer.
\<close>

definition rootWhere :: "Config \<Rightarrow> (string \<rightharpoonup> string)" where
  "rootWhere c = fold (\<lambda>r m. m(RootTable r \<mapsto> Where r)) (Roots c) Map.empty"

definition wrap :: "string \<Rightarrow> error option \<times> Extractor \<Rightarrow> error option \<times> Extractor" where
  "wrap msg r = (case r of (None, e) \<Rightarrow> (None, e) | (Some err, e) \<Rightarrow> (Some (Wrapped msg err), e))"

definition extractTable :: "Extractor \<Rightarrow> string \<Rightarrow> error option \<times> Extractor" where
  "extractTable e tableName =
     (case Tables (graph e) tableName of
        None \<Rightarrow> (None, e)
      | Some tbl \<Rightarrow>
          (case (case rootWhere (cfg e) (TableName tbl) of
                   Some where' \<Rightarrow>
                     wrap (''extracting root '' @ tableName) (extractRoot e tbl where')
                 | None \<Rightarrow>
                     if length (sliceAt (Parents (graph e)) tableName) > 0
                     then wrap (''extracting child '' @ tableName) (extractChild e tbl)
                     else (None, e)) of
             (Some err, e1) \<Rightarrow> (Some err, e1)
           | (None, e1) \<Rightarrow>
               (case SelfRefs (graph e1) tableName of
                  None \<Rightarrow> (None, e1)
                | Some selfRefs \<Rightarrow>
                    if length selfRefs > 0
                    then wrap (''extracting self-ref '' @ tableName)
                           (extractSelfRef e1 tbl selfRefs)
                    else (None, e1))))"

fun extractTables :: "Extractor \<Rightarrow> string list \<Rightarrow> error option \<times> Extractor" where
  "extractTables e [] = (None, e)"
| "extractTables e (tableName # rest) =
     (case extractTable e tableName of
        (Some err, e1) \<Rightarrow> (Some err, e1)
      | (None, e1) \<Rightarrow> extractTables e1 rest)"

fun writeTables ::
  "ioWriter \<Rightarrow> Extractor \<Rightarrow> string list \<Rightarrow> string list \<Rightarrow> error option \<times> string list" where
  "writeTables w e written [] = (None, written)"
| "writeTables w e written (tableName # rest) =
     (case Tables (graph e) tableName of
        None \<Rightarrow> writeTables w e written rest
      | Some tbl \<Rightarrow>
          (case WriteTableData w written tbl (sliceAt (collected e) tableName) of
             (Some err, written') \<Rightarrow> (Some (Wrapped (''writing '' @ tableName) err), written')
           | (None, written') \<Rightarrow> writeTables w e written' rest))"

definition traversalOrder :: "string list \<Rightarrow> Graph \<Rightarrow> string list" where
  "traversalOrder keys g =
     (let topoResult = TopoSortAll keys g
      in if HasCycle topoResult then Order topoResult @ CycleTables topoResult
         else Order topoResult)"

definition cycleWarning :: "string list \<Rightarrow> Extractor \<Rightarrow> Extractor" where
  "cycleWarning keys e =
     (let topoResult = TopoSortAll keys (graph e)
      in if HasCycle topoResult
         then e\<lparr>logged := logged e @
                [''WARNING: Circular dependencies detected: [''
                   @ Join (CycleTables topoResult) '' '' @ '']'',
                 ''Tables in cycles will be handled with session_replication_role = ''
                   @ [CHR 0x27] @ ''replica'' @ [CHR 0x27]]\<rparr>
         else e)"

definition Extract ::
  "string list \<Rightarrow> ioWriter \<Rightarrow> Extractor \<Rightarrow> error option \<times> Extractor \<times> string list" where
  "Extract keys w e =
     (let order = traversalOrder keys (graph e)
      in case extractTables (cycleWarning keys e) order of
           (Some err, e1) \<Rightarrow> (Some err, e1, [])
         | (None, e1) \<Rightarrow>
             if dryRun e1 then (None, e1, [])
             else (case WriteHeader w [] of
                     (Some err, written) \<Rightarrow> (Some err, e1, written)
                   | (None, written) \<Rightarrow>
                       (case writeTables w e1 written order of
                          (Some err, written') \<Rightarrow> (Some err, e1, written')
                        | (None, written') \<Rightarrow>
                            (case WriteFooter w written' of
                               (err, written2) \<Rightarrow> (err, e1, written2)))))"

subsection \<open>Notions for the properties of the extractor\<close>

text \<open>
  A query result counts as failed when \<open>pool.Query\<close> fails, when some row cannot be
  read, or when \<open>rows.Err()\<close> reports an error. \<open>anyFailed\<close> looks for such a result
  in the record of the queries sent. \<open>sameSetup\<close> relates two extractor states that
  differ at most in what the run collects and records.
\<close>

fun failed :: "queryResult \<Rightarrow> bool" where
  "failed (QueryFailed err) = True"
| "failed (QueryRows rs (Some err)) = True"
| "failed (QueryRows rs None) = list_ex isl rs"

definition anyFailed :: "(string \<times> any list \<times> queryResult) list \<Rightarrow> bool" where
  "anyFailed qs = list_ex (\<lambda>(query, args, r). failed r) qs"

definition sameSetup :: "Extractor \<Rightarrow> Extractor \<Rightarrow> bool" where
  "sameSetup e e' \<longleftrightarrow>
     pool e' = pool e \<and> fmtV e' = fmtV e \<and> cfg e' = cfg e \<and> graph e' = graph e
     \<and> verbose e' = verbose e \<and> dryRun e' = dryRun e"

text \<open>Scenario 4: \<open>categories(id, parent_id)\<close> referring to itself, root row 7.\<close>

definition categories_fk :: ForeignKey where
  "categories_fk =
     \<lparr>FKName = ''categories_parent_id_fkey'', ChildSchema = ''public'',
      ChildTable = ''categories'', ChildColumns = [''parent_id''], ParentSchema = ''public'',
      ParentTable = ''categories'', ParentColumns = [''id''], IsSelfRef = True,
      Virtual = VirtualNone, JSONPath = []\<rparr>"

definition categories_table :: Table where
  "categories_table =
     \<lparr>Schema = ''public'', TableName = ''categories'',
      Columns = [\<lparr>Name = ''id'', DataType = ''int4'', Nullable = False, OrdPos = 1\<rparr>,
                 \<lparr>Name = ''parent_id'', DataType = ''int4'', Nullable = True, OrdPos = 2\<rparr>],
      PrimaryKey = Some \<lparr>PKColumns = [''id'']\<rparr>,
      ForeignKeys = [categories_fk]\<rparr>"

definition categories_graph :: Graph where
  "categories_graph =
     \<lparr>Tables = [''public.categories'' \<mapsto> categories_table], Edges = [],
      SelfRefs = [''public.categories'' \<mapsto> [categories_fk]],
      Children = Map.empty, Parents = Map.empty,
      Adjacency = [''public.categories'' \<mapsto> Map.empty]\<rparr>"

text \<open>
  The database answers the root query with row 7 and the recursive query with the
  rows 7, 4, 2 and 1; a second database fails the recursive query.
\<close>

definition categories_pool :: "nat \<Rightarrow> string \<Rightarrow> any list \<Rightarrow> queryResult" where
  "categories_pool n query args =
     (if n = 0 then QueryRows [Inr [Other ''7'', Other ''4'']] None
      else QueryRows [Inr [Other ''7'', Other ''4''], Inr [Other ''4'', Other ''2''],
                      Inr [Other ''2'', Other ''1''], Inr [Other ''1'', Nil]] None)"

definition failing_pool :: "nat \<Rightarrow> string \<Rightarrow> any list \<Rightarrow> queryResult" where
  "failing_pool n query args =
     (if n = 0 then QueryRows [Inr [Other ''7'', Other ''4'']] None
      else QueryFailed ''connection reset'')"

definition show_values :: "any list \<Rightarrow> string" where
  "show_values vs = ''['' @ Join (map EscapeCopyValue vs) '' '' @ '']''"

definition categories_config :: Config where
  "categories_config = \<lparr>Roots = [\<lparr>RootTable = ''categories'', Where = ''id IN (7)''\<rparr>]\<rparr>"

definition quiet_writer :: ioWriter where
  "quiet_writer n s = None"

text \<open>
  \<open>quiet e r\<close>: the result \<open>r\<close> of an operation started in \<open>e\<close> keeps the set-up,
  and if it reports no error then it recorded no failed query.
\<close>

definition quiet :: "Extractor \<Rightarrow> error option \<times> Extractor \<Rightarrow> bool" where
  "quiet e r \<longleftrightarrow>
     sameSetup e (snd r)
     \<and> (fst r = None \<longrightarrow> anyFailed (queried (snd r)) \<longrightarrow> anyFailed (queried e))"

text \<open>The extractor as \<open>New\<close> makes it, on the failing database.\<close>

definition failing_extractor :: Extractor where
  "failing_extractor = New failing_pool show_values categories_config categories_graph False False"

text \<open>
  \<open>pkRowsEq e name\<close>: as many key tuples as rows are collected under \<open>name\<close>.
  \<open>keepsPK name table\<close>: if \<open>table\<close> writes under \<open>name\<close>, it has a primary key.
  \<open>rowsOf e table\<close>: the rows collected for \<open>table\<close>.
\<close>

definition pkRowsEq :: "Extractor \<Rightarrow> string \<Rightarrow> bool" where
  "pkRowsEq e name \<longleftrightarrow>
     length (sliceAt (collectedPKs e) name) = length (sliceAt (collected e) name)"

definition keepsPK :: "string \<Rightarrow> Table \<Rightarrow> bool" where
  "keepsPK name table \<longleftrightarrow> (FullName table = name \<longrightarrow> PrimaryKey table \<noteq> None)"

text \<open>An operation keeps the invariant when it keeps the set-up and the equality.\<close>

definition keeps :: "string \<Rightarrow> Extractor \<Rightarrow> Extractor \<Rightarrow> bool" where
  "keeps name e e' \<longleftrightarrow> sameSetup e e' \<and> (pkRowsEq e name \<longrightarrow> pkRowsEq e' name)"

definition rowsOf :: "Extractor \<Rightarrow> Table \<Rightarrow> any list list" where
  "rowsOf e table = sliceAt (collected e) (FullName table)"

text \<open>
  Scenario 4 on the working database: the extractor as \<open>New\<close> makes it, and its state
  after the root query has collected row 7.
\<close>

definition categories_extractor :: Extractor where
  "categories_extractor =
     New categories_pool show_values categories_config categories_graph False False"

definition categories_after_root :: Extractor where
  "categories_after_root = snd (extractRoot categories_extractor categories_table ''id IN (7)'')"

subsection \<open>What the loop of \<open>TopoSort\<close> maintains\<close>

text \<open>
  \<open>locPar g tables t\<close> are the parents of \<open>t\<close> inside the subset, with their
  multiplicity. \<open>lc_ok\<close> describes the local child lists after the set-up loops, and
  \<open>kahn_inv\<close> relates in-degrees, queue and order while the queue is worked off: an
  in-degree counts the local parents not yet in the order, the tables of in-degree zero
  are those in the order or the queue, and every table in the order has its local
  parents before it.
\<close>

definition locPar :: "Graph \<Rightarrow> string list \<Rightarrow> string \<Rightarrow> string list" where
  "locPar g tables t = filter (\<lambda>p. p \<in> set tables) (sliceAt (Parents g) t)"

definition lc_ok :: "Graph \<Rightarrow> string list \<Rightarrow> (string \<rightharpoonup> string list) \<Rightarrow> bool" where
  "lc_ok g tables lc \<longleftrightarrow>
     (\<forall>p. \<forall>u \<in> set tables. count_list (sliceAt lc p) u = count_list (locPar g tables u) p)
     \<and> (\<forall>p. set (sliceAt lc p) \<subseteq> set tables)"

definition kahn_inv ::
  "Graph \<Rightarrow> string list \<Rightarrow> (string, int) fmap \<Rightarrow> string list \<Rightarrow> string list \<Rightarrow> bool" where
  "kahn_inv g tables m q ord \<longleftrightarrow>
     distinct (ord @ q) \<and> set (ord @ q) \<subseteq> set tables
     \<and> (\<forall>t \<in> set tables.
           intAt m t = int (length (filter (\<lambda>p. p \<notin> set ord) (locPar g tables t))))
     \<and> (\<forall>t \<in> set tables. t \<in> set (ord @ q) \<longleftrightarrow> intAt m t = 0)
     \<and> (\<forall>i < length ord. set (locPar g tables (ord ! i)) \<subseteq> set (take i ord))"

text \<open>
  A parent with two children; \<open>range g.Tables\<close> may visit the three keys in any order.
\<close>

definition plain_table :: "string \<Rightarrow> Table" where
  "plain_table n =
     \<lparr>Schema = ''public'', TableName = n,
      Columns = [\<lparr>Name = ''id'', DataType = ''int4'', Nullable = False, OrdPos = 1\<rparr>],
      PrimaryKey = Some \<lparr>PKColumns = [''id'']\<rparr>, ForeignKeys = []\<rparr>"

definition fork_graph :: Graph where
  "fork_graph =
     \<lparr>Tables = [''public.tenants'' \<mapsto> plain_table ''tenants'',
                ''public.users'' \<mapsto> plain_table ''users'',
                ''public.products'' \<mapsto> plain_table ''products''],
      Edges = [], SelfRefs = Map.empty,
      Children = [''public.tenants'' \<mapsto> [''public.users'', ''public.products'']],
      Parents = [''public.users'' \<mapsto> [''public.tenants''],
                 ''public.products'' \<mapsto> [''public.tenants'']],
      Adjacency = Map.empty\<rparr>"

section \<open>Properties of the COPY text escaping\<close>

lemma escapeString_no_ctl:
  "tab \<notin> set (escapeString s) \<and> newline \<notin> set (escapeString s)
     \<and> carriage_return \<notin> set (escapeString s)"
  by (induction s) auto



lemma nibbles_below_16: "unat (b :: 8 word) div 16 < 16 \<and> unat b mod 16 < 16"
proof -
  have "unat b < 2 ^ LENGTH(8)" by (rule unsigned_less)
  then show ?thesis by simp
qed

lemma length_hextable: "length hextable = 16"
  by (simp add: hextable_def)

lemma hexByte_chars: "set (hexByte b) \<subseteq> set hextable"
  using nibbles_below_16[of b] by (simp add: hexByte_def length_hextable)

lemma hexEncode_chars: "set (hexEncodeToString bs) \<subseteq> set hextable"
  using hexByte_chars by (auto simp: hexEncodeToString_def)

lemma hex_no_ctl:
  "tab \<notin> set (hexEncodeToString bs) \<and> newline \<notin> set (hexEncodeToString bs)
     \<and> carriage_return \<notin> set (hexEncodeToString bs)"
  using hexEncode_chars[of bs] by (auto simp: hextable_def)









text \<open>
  Claim C10. Whatever the kind of the value, the text \<open>EscapeCopyValue\<close> returns holds
  no tab, no newline and no carriage return, so the tab between fields and the newline
  after a row cannot be confused with data.
\<close>

theorem EscapeCopyValue_no_separator:
  "tab \<notin> set (EscapeCopyValue v) \<and> newline \<notin> set (EscapeCopyValue v)
     \<and> carriage_return \<notin> set (EscapeCopyValue v)"
  by (cases v) (simp_all add: escapeString_no_ctl hex_no_ctl)

section \<open>Properties of the query builder\<close>

lemma map_upt_Suc_shift: "map f [0..<Suc n] = f 0 # map (\<lambda>k. f (Suc k)) [0..<n]"
  by (simp only: map_upt_Suc) 

lemma tupleLoop_eq:
  "tupleLoop cs pk j argIdx =
     (map (\<lambda>k. ''$'' @ itoa (argIdx + int k)) [0..<length cs],
      map (\<lambda>k. if j + k < length pk then pk ! (j + k) else Nil) [0..<length cs],
      argIdx + int (length cs))"
proof (induction cs arbitrary: j argIdx)
  case Nil
  show ?case by simp
next
  case (Cons c cs)
  show ?case
    by (simp add: Cons.IH map_upt_Suc_shift add.assoc del: upt_Suc)
qed

lemma compositeLoop_eq:
  "compositeLoop cols pks argIdx =
     (map (\<lambda>i. spec_tuple (length cols) (argIdx + int (i * length cols))) [0..<length pks],
      concat (map (padPK (length cols)) pks),
      argIdx + int (length cols * length pks))"
proof (induction pks arbitrary: argIdx)
  case Nil
  show ?case by simp
next
  case (Cons pk pks)
  show ?case
    by (simp add: Cons.IH tupleLoop_eq map_upt_Suc_shift spec_tuple_def padPK_def algebra_simps del: upt_Suc)
qed

lemma singleLoop_eq:
  "singleLoop pks argIdx =
     (if [] \<in> set pks then Inl IndexOutOfRange
      else Inr (map (\<lambda>i. ''$'' @ itoa (argIdx + int i)) [0..<length pks], map hd pks,
                argIdx + int (length pks)))"
proof (induction pks arbitrary: argIdx)
  case Nil
  show ?case by simp
next
  case (Cons pk pks)
  show ?case
  proof (cases pk)
    case Nil
    then show ?thesis by simp
  next
    case (Cons v vs)
    then show ?thesis
      by (simp add: Cons.IH map_upt_Suc_shift add.assoc del: upt_Suc)
  qed
qed

lemma capPKs_take: "capPKs pks = take 10000 pks"
  by (simp add: capPKs_def)

lemma buildCompositeIN_eq:
  "buildCompositeIN fk pks nullable argIdx =
     (let cols = ChildColumns fk; m = min 10000 (length pks);
          cond = spec_compositeIN cols argIdx m
      in (if nullable then spec_wrapComposite cond cols else cond,
          concat (map (padPK (length cols)) (take 10000 pks)),
          argIdx + int (length cols * m)))"
  by (simp add: buildCompositeIN_def compositeLoop_eq capPKs_take spec_compositeIN_def
      spec_wrapComposite_def Let_def min_def)

lemma buildSingleColumnIN_eq:
  "buildSingleColumnIN fk pks nullable argIdx =
     (if ChildColumns fk = [] \<or> [] \<in> set (take 10000 pks) then Inl IndexOutOfRange
      else let col = hd (ChildColumns fk); m = min 10000 (length pks);
               cond = spec_singleIN col argIdx m
           in Inr (if nullable then spec_wrapSingle cond col else cond,
                   map hd (take 10000 pks), argIdx + int m))"
  by (cases "ChildColumns fk")
     (simp_all add: buildSingleColumnIN_def singleLoop_eq capPKs_take spec_singleIN_def
      spec_wrapSingle_def Let_def min_def)

lemma fold_colMap_lookup:
  "distinct (map Name cs) \<Longrightarrow>
     fold (\<lambda>c m. m(Name c \<mapsto> c)) cs m0 n =
       (case find (\<lambda>c. Name c = n) cs of Some c \<Rightarrow> Some c | None \<Rightarrow> m0 n)"
proof (induction cs arbitrary: m0)
  case Nil
  show ?case by simp
next
  case (Cons c cs)
  from Cons.prems have "Name c \<notin> Name ` set cs" by simp
  then have "\<forall>d\<in>set cs. Name d \<noteq> Name c" by (metis imageI)
  then have "find (\<lambda>d. Name d = Name c) cs = None"
    by (simp add: find_None_iff)
  with Cons show ?case by (auto split: option.splits)
qed

lemma colMap_Some_iff:
  assumes "distinct (map Name (Columns table))"
  shows "colMap table n = Some col \<longleftrightarrow> col \<in> set (Columns table) \<and> Name col = n"
proof -
  have "find (\<lambda>c. Name c = n) cs = Some col \<longleftrightarrow> col \<in> set cs \<and> Name col = n"
    if "distinct (map Name cs)" for cs
    using that by (induction cs) (auto simp: rev_image_eqI)
  with assms show ?thesis
    by (simp add: colMap_def fold_colMap_lookup split: option.splits)
      (metis option.distinct(1) option.inject)
qed

lemma anyNullable_iff:
  "anyNullable m names \<longleftrightarrow> (\<exists>n \<in> set names. \<exists>col. m n = Some col \<and> Nullable col)"
  by (induction names) (auto split: option.splits)

lemma isFKNullable_iff:
  assumes "distinct (map Name (Columns table))"
  shows "isFKNullable table fk \<longleftrightarrow>
           (\<exists>col \<in> set (Columns table). Name col \<in> set (ChildColumns fk) \<and> Nullable col)"
  unfolding isFKNullable_def anyNullable_iff using colMap_Some_iff[OF assms] by auto

lemma childStep_ignores_virtual:
  "childStep table parentPKs (fk\<lparr>Virtual := v, JSONPath := p\<rparr>) st
     = childStep table parentPKs fk st"
proof -
  have "isFKNullable table (fk\<lparr>Virtual := v, JSONPath := p\<rparr>) = isFKNullable table fk"
    by (simp add: isFKNullable_def)
  moreover have "\<And>pks n i. buildSingleColumnIN (fk\<lparr>Virtual := v, JSONPath := p\<rparr>) pks n i
      = buildSingleColumnIN fk pks n i"
    by (simp add: buildSingleColumnIN_eq)
  moreover have "\<And>pks n i. buildCompositeIN (fk\<lparr>Virtual := v, JSONPath := p\<rparr>) pks n i
      = buildCompositeIN fk pks n i"
    by (simp add: buildCompositeIN_eq)
  ultimately show ?thesis
    by (cases st) (simp add: childStep_def parentKeyOf_def Let_def split: option.split)
qed

text \<open>
  Claim C2, evaluated on the code. The builder never reads the fields \<open>Virtual\<close> and
  \<open>JSONPath\<close> of a foreign key: a JSON-virtual key gets the condition of a real
  single-column key. For scenario 6 (\<open>events.meta\<close> referring to \<open>users.id\<close>, users
  1, 2 and 5 collected) the query compares the column \<open>meta\<close> itself with the
  placeholders, which is not the JSON form \<open>(meta->>'user_id') IN ($1, $2, $3)\<close>.
\<close>

theorem json_virtual_fk_plain_in:
  "childStep table parentPKs (fk\<lparr>Virtual := VirtualJSON, JSONPath := p\<rparr>) st
     = childStep table parentPKs (fk\<lparr>Virtual := VirtualNone, JSONPath := []\<rparr>) st
   \<and> buildChildQuery events_table
        [''public.users'' \<mapsto> [[Other ''1''], [Other ''2''], [Other ''5'']]]
     = Inr (''SELECT * FROM public.events WHERE meta IN ($1, $2, $3)'',
            [Other ''1'', Other ''2'', Other ''5''])
   \<and> ''meta IN ($1, $2, $3)'' \<noteq> spec_jsonIN ''meta'' ''user_id'' 1 3"
proof (intro conjI)
  show "childStep table parentPKs (fk\<lparr>Virtual := VirtualJSON, JSONPath := p\<rparr>) st
     = childStep table parentPKs (fk\<lparr>Virtual := VirtualNone, JSONPath := []\<rparr>) st"
    by (simp add: childStep_ignores_virtual)
  show "buildChildQuery events_table
        [''public.users'' \<mapsto> [[Other ''1''], [Other ''2''], [Other ''5'']]]
     = Inr (''SELECT * FROM public.events WHERE meta IN ($1, $2, $3)'',
            [Other ''1'', Other ''2'', Other ''5''])"
    by (simp add: buildChildQuery_def events_table_def events_user_fk_def childStep_def
        parentKeyOf_def isFKNullable_def colMap_def buildSingleColumnIN_def capPKs_def itoa_def
        FullName_def)
  show "''meta IN ($1, $2, $3)'' \<noteq> spec_jsonIN ''meta'' ''user_id'' 1 3"
    by (simp add: spec_jsonIN_def)
qed

text \<open>
  Claim C4. Take a table whose column names are distinct, a foreign key of it that is
  not a self-reference and whose parent has collected keys, and a step of the loop of
  \<open>buildChildQuery\<close> for that key that does not panic. The step appends exactly one
  condition. If some column of the table that is a child column of the key is nullable,
  the condition is \<open>(<cond> OR <col> IS NULL)\<close> for a single child column and
  \<open>(<cond> OR (<col1> IS NULL AND <col2> IS NULL AND \<dots>))\<close> over all child columns
  otherwise; if no child column is nullable it is the bare \<open><cond>\<close>.
\<close>

theorem nullable_fk_wrapping:
  assumes "distinct (map Name (Columns table))"
      and "\<not> IsSelfRef fk"
      and "parentPKs (parentKeyOf fk) = Some pks" and "pks \<noteq> []"
      and "childStep table parentPKs fk (conditions, args, argIdx)
             = Inr (conditions', args', argIdx')"
  shows "conditions' = conditions @
     [let cols = ChildColumns fk; m = min 10000 (length pks);
          nullable = (\<exists>col \<in> set (Columns table). Name col \<in> set cols \<and> Nullable col)
      in if length cols = 1
         then (if nullable then spec_wrapSingle (spec_singleIN (hd cols) argIdx m) (hd cols)
               else spec_singleIN (hd cols) argIdx m)
         else (if nullable then spec_wrapComposite (spec_compositeIN cols argIdx m) cols
               else spec_compositeIN cols argIdx m)]"
  using assms(2-5) isFKNullable_iff[OF assms(1), of fk]
  by (auto simp: childStep_def buildSingleColumnIN_eq buildCompositeIN_eq Let_def
      split: if_splits sum.splits)

theorem nullable_fk_wrapping_witness:
  "distinct (map Name (Columns posts_table)) \<and> \<not> IsSelfRef posts_author_fk
   \<and> [''public.users'' \<mapsto> [[Other ''1''], [Other ''2'']]] (parentKeyOf posts_author_fk)
       = Some [[Other ''1''], [Other ''2'']]
   \<and> childStep posts_table [''public.users'' \<mapsto> [[Other ''1''], [Other ''2'']]]
        posts_author_fk ([], [], 1)
       = Inr ([''(author_id IN ($1, $2) OR author_id IS NULL)''], [Other ''1'', Other ''2''], 3)"
  using nullable_fk_wrapping[of posts_table posts_author_fk
      "[''public.users'' \<mapsto> [[Other ''1''], [Other ''2'']]]"
      "[[Other ''1''], [Other ''2'']]" "[]" "[]" 1
      "[''(author_id IN ($1, $2) OR author_id IS NULL)'']" "[Other ''1'', Other ''2'']" 3]
  by (simp add: posts_table_def posts_author_fk_def childStep_def parentKeyOf_def
      isFKNullable_def colMap_def buildSingleColumnIN_def capPKs_def itoa_def)

text \<open>
  Claim C5, as stated, fails above the cap: for 10001 collected key tuples the builder
  does not make one placeholder tuple per key tuple (10001 tuples, 20002 bound values,
  next index 20003); it makes 10000 tuples and binds 20000 values.
\<close>

theorem composite_in_counterexample:
  "buildCompositeIN order_lines_fk (replicate 10001 [Other ''1'', Other ''100'']) False 1
     \<noteq> (spec_compositeIN (ChildColumns order_lines_fk) 1 10001,
         concat (map (padPK 2) (replicate 10001 [Other ''1'', Other ''100''])),
         1 + int (2 * 10001))
   \<and> length (fst (snd (buildCompositeIN order_lines_fk
                          (replicate 10001 [Other ''1'', Other ''100'']) False 1))) = 20000"
  by (simp add: buildCompositeIN_eq Let_def length_concat order_lines_fk_def padPK_def
      sum_list_replicate)

text \<open>
  Claim C5, amended. For a composite foreign key the condition is
  \<open>(col1, col2, \<dots>) IN (($a,$b,\<dots>), \<dots>)\<close> with one placeholder tuple for each of the
  first 10000 collected key tuples, the placeholders numbered from the incoming index;
  position \<open>j\<close> of a tuple binds \<open>pk[j]\<close>, or nil when the key tuple is shorter than
  the arity of the foreign key. In scenario 3 the text is
  \<open>(tenant_id, order_no) IN (($1, $2), ($3, $4), ($5, $6))\<close> with the binds
  1, 100, 1, 101, 2, 200.
\<close>

theorem composite_in_capped:
  "buildCompositeIN fk pks False argIdx =
     (spec_compositeIN (ChildColumns fk) argIdx (min 10000 (length pks)),
      concat (map (padPK (length (ChildColumns fk))) (take 10000 pks)),
      argIdx + int (length (ChildColumns fk) * min 10000 (length pks)))
   \<and> buildCompositeIN order_lines_fk
        [[Other ''1'', Other ''100''], [Other ''1'', Other ''101''], [Other ''2'', Other ''200'']]
        False 1 =
     (''(tenant_id, order_no) IN (($1, $2), ($3, $4), ($5, $6))'',
      [Other ''1'', Other ''100'', Other ''1'', Other ''101'', Other ''2'', Other ''200''], 7)
   \<and> padPK 2 [Other ''1''] = [Other ''1'', Nil]"
proof (intro conjI)
  show "buildCompositeIN fk pks False argIdx =
     (spec_compositeIN (ChildColumns fk) argIdx (min 10000 (length pks)),
      concat (map (padPK (length (ChildColumns fk))) (take 10000 pks)),
      argIdx + int (length (ChildColumns fk) * min 10000 (length pks)))"
    by (simp add: buildCompositeIN_eq Let_def)
  show "buildCompositeIN order_lines_fk
        [[Other ''1'', Other ''100''], [Other ''1'', Other ''101''], [Other ''2'', Other ''200'']]
        False 1 =
     (''(tenant_id, order_no) IN (($1, $2), ($3, $4), ($5, $6))'',
      [Other ''1'', Other ''100'', Other ''1'', Other ''101'', Other ''2'', Other ''200''], 7)"
    by (simp add: buildCompositeIN_def order_lines_fk_def capPKs_def itoa_def)
  show "padPK 2 [Other ''1''] = [Other ''1'', Nil]"
    by (simp add: padPK_def upt_rec[of _ 2] upt_rec[of _ "Suc _"])
qed

text \<open>
  Claim C8. Both builders give for a list of parent keys what they give for its first
  10000 entries: above 10000 entries exactly 10000 are used, the placeholders and the
  bound values come from those alone, and with 10000 or fewer every tuple is used.
\<close>

theorem value_set_cap:
  "buildSingleColumnIN fk pks nullable argIdx
     = buildSingleColumnIN fk (take 10000 pks) nullable argIdx
   \<and> buildCompositeIN fk pks nullable argIdx
     = buildCompositeIN fk (take 10000 pks) nullable argIdx
   \<and> buildSingleColumnIN fk pks nullable argIdx =
       (if ChildColumns fk = [] \<or> [] \<in> set (take 10000 pks) then Inl IndexOutOfRange
        else Inr (let cond = spec_singleIN (hd (ChildColumns fk)) argIdx (length (take 10000 pks))
                  in if nullable then spec_wrapSingle cond (hd (ChildColumns fk)) else cond,
                  map hd (take 10000 pks),
                  argIdx + int (length (take 10000 pks))))
   \<and> buildCompositeIN fk pks nullable argIdx =
       (let cond = spec_compositeIN (ChildColumns fk) argIdx (length (take 10000 pks))
        in if nullable then spec_wrapComposite cond (ChildColumns fk) else cond,
        concat (map (padPK (length (ChildColumns fk))) (take 10000 pks)),
        argIdx + int (length (ChildColumns fk) * length (take 10000 pks)))
   \<and> length (take 10000 pks) = (if length pks > 10000 then 10000 else length pks)
   \<and> take 10000 pks = (if length pks > 10000 then take 10000 pks else pks)"
  by (simp add: buildSingleColumnIN_eq buildCompositeIN_eq Let_def min_def)

section \<open>Properties of the topological order\<close>

lemma sliceAt_upd: "sliceAt (m(k \<mapsto> v)) k' = (if k' = k then v else sliceAt m k')"
  by (simp add: sliceAt_def)

lemma intAt_upd: "intAt (fmupd k v m) k' = (if k' = k then v else intAt m k')"
  by (auto simp add: intAt_def)

lemma addLocalEdge_pair:
  "addLocalEdge tables t p (lc, m) =
     (if p \<in> set tables
      then (lc(p \<mapsto> sliceAt lc p @ [t]), fmupd t (intAt m t + 1) m) else (lc, m))"
  by (simp add: addLocalEdge_def)

lemma count_list_replicate_eq: "count_list (replicate n x) y = (if x = y then n else 0)"
  by (induction n) auto

lemma fold_addLocalEdge:
  "fold (addLocalEdge tables t) ps (lc, m) = (lc', m') \<Longrightarrow>
     sliceAt lc' p = sliceAt lc p @ replicate (count_list (filter (\<lambda>q. q \<in> set tables) ps) p) t
     \<and> intAt m' u = intAt m u + (if u = t then int (length (filter (\<lambda>q. q \<in> set tables) ps)) else 0)"
proof (induction ps arbitrary: lc m)
  case Nil
  then show ?case by simp
next
  case (Cons a ps)
  show ?case
  proof (cases "a \<in> set tables")
    case True
    with Cons.prems have
      "fold (addLocalEdge tables t) ps (lc(a \<mapsto> sliceAt lc a @ [t]), fmupd t (intAt m t + 1) m) = (lc', m')"
      by (simp add: addLocalEdge_pair)
    from Cons.IH[OF this] True show ?thesis
      by (auto simp: sliceAt_upd intAt_upd replicate_append_same simp del: fun_upd_apply)
  next
    case False
    with Cons.prems have "fold (addLocalEdge tables t) ps (lc, m) = (lc', m')"
      by (simp add: addLocalEdge_pair)
    from Cons.IH[OF this] False show ?thesis by simp
  qed
qed

lemma fold_localEdges:
  "fold (\<lambda>t st. fold (addLocalEdge tables t) (sliceAt (Parents g) t) st) ts (lc, m) = (lc', m') \<Longrightarrow>
     count_list (sliceAt lc' p) u
       = count_list (sliceAt lc p) u + count_list ts u * count_list (locPar g tables u) p
     \<and> intAt m' u = intAt m u + int (count_list ts u * length (locPar g tables u))
     \<and> set (sliceAt lc' p) \<subseteq> set (sliceAt lc p) \<union> set ts"
proof (induction ts arbitrary: lc m)
  case Nil
  then show ?case by simp
next
  case (Cons t ts)
  obtain lc1 m1 where s: "fold (addLocalEdge tables t) (sliceAt (Parents g) t) (lc, m) = (lc1, m1)"
    by (cases "fold (addLocalEdge tables t) (sliceAt (Parents g) t) (lc, m)")
  with Cons.prems have r:
    "fold (\<lambda>t st. fold (addLocalEdge tables t) (sliceAt (Parents g) t) st) ts (lc1, m1) = (lc', m')"
    by simp
  note a = fold_addLocalEdge[OF s, of p u] and b = Cons.IH[OF r]
  have c1: "count_list (sliceAt lc1 p) u
      = count_list (sliceAt lc p) u + (if u = t then count_list (locPar g tables t) p else 0)"
    using a by (simp add: locPar_def count_list_replicate_eq)
  have c2: "set (sliceAt lc1 p) \<subseteq> set (sliceAt lc p) \<union> {t}"
    using a by auto
  from a b c1 c2 show ?case
    by (auto simp: locPar_def algebra_simps)
qed


lemma intAt_zero_fold:
  "intAt (fold (\<lambda>t m. fmupd t 0 m) ts m0) u = (if u \<in> set ts then 0 else intAt m0 u)"
  by (induction ts arbitrary: m0) (auto simp: intAt_upd)

lemma count_list_distinct: "distinct xs \<Longrightarrow> count_list xs x = (if x \<in> set xs then 1 else 0)"
  by (induction xs) auto

lemma localEdges_props:
  assumes "distinct tables" and "localEdges g tables = (lc, m)"
  shows "u \<in> set tables \<Longrightarrow> intAt m u = int (length (locPar g tables u))"
    and "u \<in> set tables \<Longrightarrow> count_list (sliceAt lc p) u = count_list (locPar g tables u) p"
    and "set (sliceAt lc p) \<subseteq> set tables"
proof -
  note f = fold_localEdges[OF assms(2)[unfolded localEdges_def], of p u]
  show "u \<in> set tables \<Longrightarrow> intAt m u = int (length (locPar g tables u))"
    using f assms(1) by (simp add: intAt_zero_fold count_list_distinct)
  show "u \<in> set tables \<Longrightarrow> count_list (sliceAt lc p) u = count_list (locPar g tables u) p"
    using f assms(1) by (simp add: sliceAt_def count_list_distinct)
  show "set (sliceAt lc p) \<subseteq> set tables"
    using f by (simp add: sliceAt_def)
qed

lemma relax_pair:
  "relax c (m, q) =
     (fmupd c (intAt m c - 1) m, if intAt m c = 1 then q @ [c] else q)"
  by (simp add: relax_def Let_def intAt_upd)

lemma fold_relax:
  "\<exists>m' new. fold relax cs (m, q) = (m', q @ new)
      \<and> (\<forall>t. intAt m' t = intAt m t - int (count_list cs t))
      \<and> distinct new
      \<and> set new = {t \<in> set cs. 1 \<le> intAt m t \<and> intAt m t \<le> int (count_list cs t)}"
proof (induction cs arbitrary: m q)
  case Nil
  show ?case by simp
next
  case (Cons c cs)
  let ?m1 = "fmupd c (intAt m c - 1) m"
  let ?q1 = "if intAt m c = 1 then q @ [c] else q"
  from Cons.IH[of ?m1 ?q1] obtain m' new where
    f: "fold relax cs (?m1, ?q1) = (m', ?q1 @ new)"
    and d: "\<forall>t. intAt m' t = intAt ?m1 t - int (count_list cs t)"
    and n: "distinct new"
    and s: "set new = {t \<in> set cs. 1 \<le> intAt ?m1 t \<and> intAt ?m1 t \<le> int (count_list cs t)}"
    by blast
  let ?new = "(if intAt m c = 1 then [c] else []) @ new"
  have "fold relax (c # cs) (m, q) = (m', q @ ?new)"
    using f by (simp add: relax_pair)
  moreover have "\<forall>t. intAt m' t = intAt m t - int (count_list (c # cs) t)"
    using d by (auto simp: intAt_upd)
  moreover have "distinct ?new"
    using n s by (auto simp: intAt_upd)
  moreover have "set ?new = {t \<in> set (c # cs). 1 \<le> intAt m t \<and> intAt m t \<le> int (count_list (c # cs) t)}"
    using s by (auto simp: intAt_upd)
  ultimately show ?case by blast
qed

lemma filter_insert_count:
  "node \<notin> S \<Longrightarrow>
     int (length (filter (\<lambda>p. p \<notin> insert node S) ps))
       = int (length (filter (\<lambda>p. p \<notin> S) ps)) - int (count_list ps node)"
  by (induction ps) auto


lemma kahn_inv_step:
  assumes lc: "lc_ok g tables lc"
      and inv: "kahn_inv g tables m (node # q) ord"
      and f: "fold relax (sliceAt lc node) (m, q) = (m', q')"
  shows "kahn_inv g tables m' q' (ord @ [node])"
proof -
  from lc have lc1: "\<And>p u. u \<in> set tables \<Longrightarrow>
                  count_list (sliceAt lc p) u = count_list (locPar g tables u) p"
      and lc2: "\<And>p. set (sliceAt lc p) \<subseteq> set tables"
    by (auto simp: lc_ok_def)
  let ?cs = "sliceAt lc node"
  from fold_relax[of ?cs m q] f obtain new where
    q': "q' = q @ new"
    and d: "\<And>t. intAt m' t = intAt m t - int (count_list ?cs t)"
    and dn: "distinct new"
    and sn: "set new = {t \<in> set ?cs. 1 \<le> intAt m t \<and> intAt m t \<le> int (count_list ?cs t)}"
    by auto
  from inv have dist: "distinct (ord @ node # q)" and sub: "set (ord @ node # q) \<subseteq> set tables"
    and j3: "\<And>t. t \<in> set tables \<Longrightarrow>
               intAt m t = int (length (filter (\<lambda>p. p \<notin> set ord) (locPar g tables t)))"
    and j4: "\<And>t. t \<in> set tables \<Longrightarrow> t \<in> set (ord @ node # q) \<longleftrightarrow> intAt m t = 0"
    and j5: "\<And>i. i < length ord \<Longrightarrow> set (locPar g tables (ord ! i)) \<subseteq> set (take i ord)"
    by (auto simp: kahn_inv_def)
  from dist have node_new: "node \<notin> set ord" by simp
  from sub have node_in: "node \<in> set tables" by simp
  have j3': "intAt m' t = int (length (filter (\<lambda>p. p \<notin> set (ord @ [node])) (locPar g tables t)))"
    if "t \<in> set tables" for t
    using d[of t] lc1[OF that, of node] j3[OF that] filter_insert_count[OF node_new, of "locPar g tables t"]
    by simp
  have nonneg: "0 \<le> intAt m' t" if "t \<in> set tables" for t
    using j3'[OF that] by simp
  have nonneg0: "0 \<le> intAt m t" if "t \<in> set tables" for t
    using j3[OF that] by simp
  have new_sub: "set new \<subseteq> set tables" using sn lc2[of node] by auto
  have new_pos: "1 \<le> intAt m t" if "t \<in> set new" for t using that sn by auto
  have new_fresh: "t \<notin> set (ord @ node # q)" if "t \<in> set new" for t
    using new_pos[OF that] j4[of t] new_sub that by auto
  have j1': "distinct ((ord @ [node]) @ q')"
    using dist dn new_fresh by (auto simp: q')
  have j2': "set ((ord @ [node]) @ q') \<subseteq> set tables"
    using sub new_sub by (auto simp: q')
  have j4': "t \<in> set ((ord @ [node]) @ q') \<longleftrightarrow> intAt m' t = 0" if t: "t \<in> set tables" for t
  proof
    assume "t \<in> set ((ord @ [node]) @ q')"
    then consider "t \<in> set (ord @ node # q)" | "t \<in> set new" by (auto simp: q')
    then show "intAt m' t = 0"
    proof cases
      case 1
      then have "intAt m t = 0" using j4[OF t] by simp
      with d[of t] nonneg[OF t] show ?thesis by simp
    next
      case 2
      then have "intAt m t \<le> int (count_list ?cs t)" using sn by auto
      with d[of t] nonneg[OF t] show ?thesis by simp
    qed
  next
    assume z: "intAt m' t = 0"
    show "t \<in> set ((ord @ [node]) @ q')"
    proof (cases "intAt m t = 0")
      case True
      then have "t \<in> set (ord @ node # q)" using j4[OF t] by simp
      then show ?thesis by (auto simp: q')
    next
      case False
      with nonneg0[OF t] have p: "1 \<le> intAt m t" by simp
      from z d[of t] have e: "intAt m t = int (count_list ?cs t)" by simp
      with p have "0 < count_list ?cs t" by simp
      then have "t \<in> set ?cs" by (simp add: count_list_0_iff zero_less_iff_neq_zero)
      with p e have "t \<in> set new" using sn by simp
      then show ?thesis by (simp add: q')
    qed
  qed
  have par_node: "set (locPar g tables node) \<subseteq> set ord"
  proof -
    have "intAt m node = 0" using j4[OF node_in] by simp
    with j3[OF node_in] have "filter (\<lambda>p. p \<notin> set ord) (locPar g tables node) = []" by simp
    then show ?thesis by (auto simp: filter_empty_conv)
  qed
  have j5': "set (locPar g tables ((ord @ [node]) ! i)) \<subseteq> set (take i (ord @ [node]))"
    if "i < length (ord @ [node])" for i
  proof (cases "i < length ord")
    case True
    then show ?thesis using j5[OF True] by (simp add: nth_append)
  next
    case False
    with that have "i = length ord" by simp
    then show ?thesis using par_node by simp
  qed
  show ?thesis
    unfolding kahn_inv_def using j1' j2' j3' j4' j5' by blast
qed

lemma kahnLoop_inv:
  "lc_ok g tables lc \<Longrightarrow> kahn_inv g tables m q ord \<Longrightarrow> kahnLoop lc m q ord = (ord', m')
     \<Longrightarrow> kahn_inv g tables m' [] ord'"
proof (induction lc m q ord rule: kahnLoop.induct)
  case (1 localChildren inDegree order)
  then show ?case by simp
next
  case (2 localChildren inDegree node queue order)
  obtain m1 q1 where f: "fold relax (sliceAt localChildren node) (inDegree, queue) = (m1, q1)"
    by (cases "fold relax (sliceAt localChildren node) (inDegree, queue)")
  have "kahn_inv g tables m1 q1 (order @ [node])"
    by (rule kahn_inv_step[OF "2.prems"(1,2) f])
  moreover from "2.prems"(3) f have "kahnLoop localChildren m1 q1 (order @ [node]) = (ord', m')"
    by simp
  ultimately show ?case
    using "2.IH"[OF f[symmetric] "2.prems"(1)] by blast
qed

lemma kahn_inv_init:
  assumes "distinct tables" and "localEdges g tables = (lc, m)"
  shows "lc_ok g tables lc"
    and "kahn_inv g tables m (filter (\<lambda>t. intAt m t = 0) tables) []"
  using localEdges_props[OF assms] assms(1)
  by (auto simp: lc_ok_def kahn_inv_def)

lemma appearsBefore_nth:
  "i < j \<Longrightarrow> j < length xs \<Longrightarrow> appearsBefore (xs ! i) (xs ! j) xs"
proof (induction xs arbitrary: i j)
  case Nil
  then show ?case by simp
next
  case (Cons x xs)
  show ?case
  proof (cases "x = (x # xs) ! i")
    case True
    from Cons.prems obtain j' where "j = Suc j'" "j' < length xs" by (cases j) auto
    with True show ?thesis by simp
  next
    case False
    then obtain i' where i: "i = Suc i'" by (cases i) auto
    with Cons.prems obtain j' where j: "j = Suc j'" "i' < j'" "j' < length xs" by (cases j) auto
    with Cons.IH[of i' j'] i False show ?thesis by simp
  qed
qed

lemma appearsBefore_split:
  "appearsBefore a b xs \<Longrightarrow> \<exists>l1 l2 l3. xs = l1 @ a # l2 @ b # l3"
proof (induction xs)
  case Nil
  then show ?case by simp
next
  case (Cons x xs)
  show ?case
  proof (cases "x = a")
    case True
    with Cons.prems have "b \<in> set xs" by simp
    then obtain l2 l3 where "xs = l2 @ b # l3" by (auto simp: in_set_conv_decomp)
    with True have "x # xs = [] @ a # l2 @ b # l3" by simp
    then show ?thesis by blast
  next
    case False
    with Cons obtain l1 l2 l3 where "xs = l1 @ a # l2 @ b # l3" by auto
    then have "x # xs = (x # l1) @ a # l2 @ b # l3" by simp
    then show ?thesis by blast
  qed
qed

text \<open>
  Claim C1. Let \<open>tables\<close> list a subset of the tables, each once, and let \<open>parent\<close>
  be among \<open>g.Parents[child]\<close> (an edge of a foreign key that is not a self-reference,
  as \<open>Build\<close> records it) with both ends in the subset. If \<open>child\<close> is not
  reported in \<open>CycleTables\<close>, then \<open>parent\<close> comes before \<open>child\<close> in \<open>Order\<close>.
  (That \<open>parent\<close> is not reported either is not needed.)
\<close>

theorem toposort_parent_before_child:
  assumes d: "distinct tables"
      and c: "child \<in> set tables" and p: "parent \<in> set tables"
      and e: "parent \<in> set (sliceAt (Parents g) child)"
      and nc: "child \<notin> set (CycleTables (TopoSort g tables))"
  shows "appearsBefore parent child (Order (TopoSort g tables))"
proof -
  obtain lc m where le: "localEdges g tables = (lc, m)" by (cases "localEdges g tables")
  obtain ord m' where kl: "kahnLoop lc m (filter (\<lambda>t. intAt m t = 0) tables) [] = (ord, m')"
    by (cases "kahnLoop lc m (filter (\<lambda>t. intAt m t = 0) tables) []")
  have inv: "kahn_inv g tables m' [] ord"
    by (rule kahnLoop_inv[OF kahn_inv_init[OF d le] kl])
  then have dist: "distinct ord" and sub: "set ord \<subseteq> set tables"
    and j3: "\<And>t. t \<in> set tables \<Longrightarrow> 0 \<le> intAt m' t"
    and j4: "\<And>t. t \<in> set tables \<Longrightarrow> t \<in> set ord \<longleftrightarrow> intAt m' t = 0"
    and j5: "\<And>i. i < length ord \<Longrightarrow> set (locPar g tables (ord ! i)) \<subseteq> set (take i ord)"
    by (auto simp: kahn_inv_def)
  have ord: "Order (TopoSort g tables) = ord"
    by (simp add: TopoSort_def le kl)
  have cyc: "CycleTables (TopoSort g tables) =
      (if length ord < length tables then filter (\<lambda>t. intAt m' t > 0) tables else [])"
    by (simp add: TopoSort_def le kl)
  have "child \<in> set ord"
  proof (cases "length ord < length tables")
    case True
    with nc cyc c have "\<not> 0 < intAt m' child" by simp
    with j3[OF c] have "intAt m' child = 0" by simp
    then show ?thesis using j4[OF c] by simp
  next
    case False
    have "card (set ord) = length ord" using dist by (simp add: distinct_card)
    moreover have "card (set tables) = length tables" using d by (simp add: distinct_card)
    ultimately have "card (set tables) \<le> card (set ord)" using False by simp
    with sub have "set ord = set tables" by (simp add: card_seteq)
    with c show ?thesis by simp
  qed
  then obtain j where j: "j < length ord" "ord ! j = child" by (auto simp: in_set_conv_nth)
  have "parent \<in> set (locPar g tables child)" using p e by (simp add: locPar_def)
  with j5[OF j(1)] j(2) have "parent \<in> set (take j ord)" by auto
  then obtain i where i: "i < length (take j ord)" "take j ord ! i = parent"
    by (auto simp: in_set_conv_nth)
  then have "i < j" "ord ! i = parent" by simp_all
  with appearsBefore_nth[of i j ord] j show ?thesis by (simp add: ord)
qed

theorem toposort_parent_before_child_witness:
  "distinct [''public.orders'', ''public.users'', ''public.tenants'']
   \<and> ''public.tenants'' \<in> set (sliceAt (Parents chain_graph) ''public.users'')
   \<and> CycleTables (TopoSort chain_graph [''public.orders'', ''public.users'', ''public.tenants'']) = []
   \<and> Order (TopoSort chain_graph [''public.orders'', ''public.users'', ''public.tenants''])
       = [''public.tenants'', ''public.users'', ''public.orders'']
   \<and> appearsBefore ''public.tenants'' ''public.users''
        (Order (TopoSort chain_graph [''public.orders'', ''public.users'', ''public.tenants'']))"
  using toposort_parent_before_child[of "[''public.orders'', ''public.users'', ''public.tenants'']"
      "''public.users''" "''public.tenants''" chain_graph]
  by (simp add: TopoSort_def localEdges_def chain_graph_def addLocalEdge_def sliceAt_def
      relax_def intAt_def)

text \<open>
  Claim C9, evaluated on the code. \<open>TopoSortAll\<close> passes the keys of \<open>g.Tables\<close> to
  \<open>TopoSort\<close> in the order the map iteration yields them, and nothing sorts them:
  for the same graph, two enumerations of the same key set give two different orders.
\<close>

theorem toposort_all_key_order_dependent:
  "set [''public.tenants'', ''public.users'', ''public.products''] = dom (Tables fork_graph)
   \<and> set [''public.products'', ''public.users'', ''public.tenants''] = dom (Tables fork_graph)
   \<and> Order (TopoSortAll [''public.tenants'', ''public.users'', ''public.products''] fork_graph)
       = [''public.tenants'', ''public.users'', ''public.products'']
   \<and> Order (TopoSortAll [''public.products'', ''public.users'', ''public.tenants''] fork_graph)
       = [''public.tenants'', ''public.products'', ''public.users'']"
  by (simp add: TopoSortAll_def TopoSort_def localEdges_def fork_graph_def addLocalEdge_def
      sliceAt_def relax_def intAt_def insert_commute)

section \<open>Properties of the extractor\<close>

lemma sameSetup_refl [simp]: "sameSetup e e"
  by (simp add: sameSetup_def)

lemma sameSetup_trans: "sameSetup e e1 \<Longrightarrow> sameSetup e1 e2 \<Longrightarrow> sameSetup e e2"
  by (simp add: sameSetup_def)

lemma printf_frame [simp]:
  "sameSetup e (printf e s)" "queried (printf e s) = queried e"
  "collected (printf e s) = collected e" "collectedPKs (printf e s) = collectedPKs e"
  "verbose (printf e s) = verbose e" "dryRun (printf e s) = dryRun e"
  "fmtV (printf e s) = fmtV e" "pool (printf e s) = pool e" "cfg (printf e s) = cfg e"
  "graph (printf e s) = graph e"
  by (simp_all add: printf_def sameSetup_def)

lemma addRow_frame [simp]:
  "sameSetup e (addRow e table values)" "queried (addRow e table values) = queried e"
  "fmtV (addRow e table values) = fmtV e"
  by (simp_all add: addRow_def sameSetup_def Let_def split: option.split)

lemma anyFailed_append [simp]: "anyFailed (qs @ qs') \<longleftrightarrow> anyFailed qs \<or> anyFailed qs'"
  by (simp add: anyFailed_def list_ex_iff) blast

lemma anyFailed_single [simp]: "anyFailed [(query, args, r)] = failed r"
  by (simp add: anyFailed_def)

lemma anyFailed_Nil [simp]: "\<not> anyFailed []"
  by (simp add: anyFailed_def)

lemma drainRows_frame:
  "drainRows e table rs = (res, e') \<Longrightarrow>
     sameSetup e e' \<and> queried e' = queried e \<and> (res = None \<longrightarrow> \<not> list_ex isl rs)"
proof (induction e table rs rule: drainRows.induct)
  case (1 e table)
  then show ?case by auto
next
  case (2 e table err rest)
  then show ?case by auto
next
  case (3 e table vals rest)
  then show ?case using sameSetup_trans[OF addRow_frame(1)] by auto
qed

lemma Query_frame:
  "Query e query args = (r, e') \<Longrightarrow>
     sameSetup e e' \<and> queried e' = queried e @ [(query, args, r)]
     \<and> collected e' = collected e \<and> collectedPKs e' = collectedPKs e"
  by (auto simp: Query_def Let_def sameSetup_def)

lemma quiet_same [simp]: "quiet e (None, e)" "quiet e (Some err, e)"
  by (simp_all add: quiet_def)

lemma quiet_printf [simp]: "quiet e (res, printf e' s) = quiet e (res, e')"
  by (simp add: quiet_def sameSetup_def)

lemma quiet_trans:
  "sameSetup e e1 \<Longrightarrow> (anyFailed (queried e1) \<longrightarrow> anyFailed (queried e)) \<Longrightarrow> quiet e1 r \<Longrightarrow> quiet e r"
  by (auto simp: quiet_def intro: sameSetup_trans)

lemma runQuery_quiet: "quiet e (runQuery e table query args)"
proof -
  obtain r e1 where q: "Query e query args = (r, e1)" by (cases "Query e query args")
  note qf = Query_frame[OF q]
  show ?thesis
  proof (cases r)
    case (QueryFailed err)
    with q qf show ?thesis by (simp add: runQuery_def quiet_def)
  next
    case (QueryRows rs final)
    obtain res e2 where d: "drainRows e1 table rs = (res, e2)" by (cases "drainRows e1 table rs")
    note df = drainRows_frame[OF d]
    from df qf have s: "sameSetup e e2" by (blast intro: sameSetup_trans)
    show ?thesis
    proof (cases res)
      case (Some err)
      with q QueryRows d s show ?thesis by (simp add: runQuery_def quiet_def)
    next
      case None
      with df have "\<not> list_ex isl rs" by simp
      with q QueryRows d None s qf df show ?thesis
        by (cases final) (auto simp: runQuery_def quiet_def sameSetup_def)
    qed
  qed
qed

lemma extractRoot_quiet: "quiet e (extractRoot e table where')"
  unfolding extractRoot_def Let_def
  by (auto intro!: quiet_trans[OF _ _ runQuery_quiet])

lemma extractChild_quiet: "quiet e (extractChild e table)"
  unfolding extractChild_def Let_def
  by (auto split: sum.split intro!: quiet_trans[OF _ _ runQuery_quiet])


lemma readAll_Inr: "readAll rs = Inr result \<Longrightarrow> \<not> list_ex isl rs"
  by (induction rs arbitrary: result rule: readAll.induct) (auto split: sum.splits)

lemma fetchSelfRefRows_frame:
  assumes "fetchSelfRefRows e table fk seedPKs v = (r, e')"
  shows "sameSetup e e'" and "collected e' = collected e" and "collectedPKs e' = collectedPKs e"
    and "r = Inr rows \<Longrightarrow> anyFailed (queried e') \<Longrightarrow> anyFailed (queried e)"
proof -
  have "sameSetup e e' \<and> collected e' = collected e \<and> collectedPKs e' = collectedPKs e
      \<and> (r = Inr rows \<longrightarrow> anyFailed (queried e') \<longrightarrow> anyFailed (queried e))"
  proof (cases "buildSelfRefQuery table fk seedPKs")
    case (Inl p)
    with assms show ?thesis by (auto simp: fetchSelfRefRows_def)
  next
    case (Inr qa)
    obtain query args where qa: "qa = (query, args)" by (cases qa)
    show ?thesis
    proof (cases "query = []")
      case True
      with assms Inr qa show ?thesis by (auto simp: fetchSelfRefRows_def)
    next
      case False
      let ?e1 = "if v then printf e (''  [self-ref] '' @ FullName table @ '': '' @ query
                     @ '' (args: '' @ fmtV e args @ '')'' @ [newline]) else e"
      obtain res e2 where q: "Query ?e1 query args = (res, e2)" by (cases "Query ?e1 query args")
      have e2: "sameSetup e e2" "queried e2 = queried e @ [(query, args, res)]"
        "collected e2 = collected e" "collectedPKs e2 = collectedPKs e"
        using Query_frame[OF q] by (auto simp: sameSetup_def)
      from assms Inr qa False q have r:
        "(r, e') = (case res of
            QueryFailed err \<Rightarrow>
              (Inl (Wrapped (''self-ref query for '' @ FullName table) (DbError err)), e2)
          | QueryRows rs final \<Rightarrow>
              (case readAll rs of
                 Inl err \<Rightarrow> (Inl (DbError err), e2)
               | Inr result \<Rightarrow>
                   (case final of Some err \<Rightarrow> (Inl (DbError err), e2)
                    | None \<Rightarrow> (Inr result, e2))))"
        by (simp add: fetchSelfRefRows_def Let_def)
      then have e': "e' = e2"
        by (auto split: queryResult.splits sum.splits option.splits)
      from r have "r = Inr rows \<Longrightarrow> \<not> failed res"
        by (auto split: queryResult.splits sum.splits option.splits dest: readAll_Inr)
      with e2 e' show ?thesis by auto
    qed
  qed
  then show "sameSetup e e'" and "collected e' = collected e" and "collectedPKs e' = collectedPKs e"
    and "r = Inr rows \<Longrightarrow> anyFailed (queried e') \<Longrightarrow> anyFailed (queried e)"
    by auto
qed

lemma addNewRows_frame:
  "sameSetup e (addNewRows e table existing rows) \<and> queried (addNewRows e table existing rows) = queried e"
proof (induction e table existing rows rule: addNewRows.induct)
  case (1 e table existing)
  show ?case by simp
next
  case (2 e table existing row rest)
  then show ?case
    using sameSetup_trans[OF addRow_frame(1)] by (auto simp: Let_def)
qed

lemma selfRefLoop_quiet: "quiet e (selfRefLoop e table seedPKs fks)"
proof (induction e table seedPKs fks rule: selfRefLoop.induct)
  case (1 e table seedPKs)
  show ?case by simp
next
  case (2 e table seedPKs fk fks)
  obtain r e1 where f: "fetchSelfRefRows e table fk seedPKs (verbose e \<or> dryRun e) = (r, e1)"
    by (cases "fetchSelfRefRows e table fk seedPKs (verbose e \<or> dryRun e)")
  note ff = fetchSelfRefRows_frame[OF f]
  show ?case
  proof (cases r)
    case (Inl err)
    with f ff(1) show ?thesis by (simp add: quiet_def)
  next
    case (Inr extraRows)
    let ?e2 = "addNewRows e1 table (pkSet e1 table) extraRows"
    let ?e3 = "if verbose ?e2
               then printf ?e2 (''  [self-ref] '' @ FullName table @ '': total ''
                      @ itoa (int (length (sliceAt (collected ?e2) (FullName table))))
                      @ '' rows after recursive'' @ [newline])
               else ?e2"
    have ih: "quiet ?e3 (selfRefLoop ?e3 table seedPKs fks)"
      using "2.IH"[OF f[symmetric] Inr refl refl] by (simp add: Let_def)
    have s: "sameSetup e ?e3"
      using ff(1) addNewRows_frame[of e1 table "pkSet e1 table" extraRows]
      by (auto simp: sameSetup_def)
    have q: "anyFailed (queried ?e3) \<longrightarrow> anyFailed (queried e)"
      using ff(4)[OF Inr] addNewRows_frame[of e1 table "pkSet e1 table" extraRows] by auto
    from quiet_trans[OF s q ih] f Inr show ?thesis by (simp add: Let_def)
  qed
qed

lemma extractSelfRef_quiet: "quiet e (extractSelfRef e table selfRefs)"
  by (simp add: extractSelfRef_def Let_def selfRefLoop_quiet)

lemma wrap_quiet: "quiet e r \<Longrightarrow> quiet e (wrap msg r)"
  by (cases r) (auto simp: wrap_def quiet_def split: option.splits)

lemma quiet_seq:
  "quiet e (res, e1) \<Longrightarrow> res = None \<Longrightarrow> quiet e1 r \<Longrightarrow> quiet e r"
  by (auto simp: quiet_def intro: sameSetup_trans)

lemma extractTable_quiet: "quiet e (extractTable e tableName)"
proof (cases "Tables (graph e) tableName")
  case None
  then show ?thesis by (simp add: extractTable_def)
next
  case (Some tbl)
  let ?first = "case rootWhere (cfg e) (TableName tbl) of
                   Some where' \<Rightarrow>
                     wrap (''extracting root '' @ tableName) (extractRoot e tbl where')
                 | None \<Rightarrow>
                     if length (sliceAt (Parents (graph e)) tableName) > 0
                     then wrap (''extracting child '' @ tableName) (extractChild e tbl)
                     else (None, e)"
  have q1: "quiet e ?first"
    by (auto split: option.split intro: wrap_quiet extractRoot_quiet extractChild_quiet)
  obtain res e1 where f: "?first = (res, e1)" by (cases ?first)
  show ?thesis
  proof (cases res)
    case (Some err)
    with f q1 Some \<open>Tables (graph e) tableName = Some tbl\<close> show ?thesis
      by (simp add: extractTable_def)
  next
    case None
    let ?second = "case SelfRefs (graph e1) tableName of
                  None \<Rightarrow> (None, e1)
                | Some selfRefs \<Rightarrow>
                    if length selfRefs > 0
                    then wrap (''extracting self-ref '' @ tableName)
                           (extractSelfRef e1 tbl selfRefs)
                    else (None, e1)"
    have q2: "quiet e1 ?second"
      by (auto split: option.split intro: wrap_quiet extractSelfRef_quiet)
    have "extractTable e tableName = ?second"
      using f None \<open>Tables (graph e) tableName = Some tbl\<close> by (simp add: extractTable_def)
    with quiet_seq[OF _ None q2] q1 f show ?thesis by simp
  qed
qed

lemma extractTables_quiet: "quiet e (extractTables e order)"
proof (induction order arbitrary: e)
  case Nil
  show ?case by simp
next
  case (Cons tableName rest)
  obtain res e1 where f: "extractTable e tableName = (res, e1)" by (cases "extractTable e tableName")
  have q: "quiet e (res, e1)" using extractTable_quiet[of e tableName] f by simp
  show ?case
  proof (cases res)
    case None
    with f quiet_seq[OF q None Cons.IH[of e1]] show ?thesis by simp
  next
    case (Some err)
    with f q show ?thesis by simp
  qed
qed


lemma cycleWarning_frame: "sameSetup e (cycleWarning keys e)" "queried (cycleWarning keys e) = queried e"
  by (simp_all add: cycleWarning_def Let_def sameSetup_def)

text \<open>
  Claim C3. Start \<open>Extract\<close> on an extractor that has sent no query yet. If any query
  of the run failed (the call itself, the reading of a row, or the final row error),
  then \<open>Extract\<close> returns the error with which the extraction loop stopped and the
  writer has not been called at all. Under dry-run the writer is not called either.
  Whenever the writer has been called, the run is no dry-run, the extraction loop ended
  without error and no query failed.
\<close>

theorem extract_query_error_no_write:
  assumes "queried e = []" and "Extract keys w e = (res, e', written)"
  shows "(anyFailed (queried e') \<longrightarrow>
            res = fst (extractTables (cycleWarning keys e) (traversalOrder keys (graph e)))
            \<and> res \<noteq> None \<and> written = [])
         \<and> (dryRun e \<longrightarrow> written = [])
         \<and> (written \<noteq> [] \<longrightarrow>
              \<not> dryRun e \<and> \<not> anyFailed (queried e')
              \<and> fst (extractTables (cycleWarning keys e) (traversalOrder keys (graph e))) = None)"
proof -
  let ?e0 = "cycleWarning keys e"
  let ?order = "traversalOrder keys (graph e)"
  obtain r e1 where x: "extractTables ?e0 ?order = (r, e1)" by (cases "extractTables ?e0 ?order")
  have q: "quiet ?e0 (r, e1)" using extractTables_quiet[of ?e0 ?order] x by simp
  then have s: "sameSetup e e1" using cycleWarning_frame(1)[of e keys]
    by (auto simp: quiet_def intro: sameSetup_trans)
  then have dr: "dryRun e1 = dryRun e" by (simp add: sameSetup_def)
  from q assms(1) have ok: "r = None \<Longrightarrow> \<not> anyFailed (queried e1)"
    by (simp add: quiet_def cycleWarning_frame)
  have e': "e' = e1" using assms(2) x
    by (auto simp: Extract_def Let_def split: option.splits prod.splits if_splits)
  show ?thesis
  proof (cases r)
    case (Some err)
    with assms(2) x have "res = Some err" "written = []"
      by (auto simp: Extract_def Let_def)
    with x Some show ?thesis by simp
  next
    case None
    from ok[OF None] e' have nf: "\<not> anyFailed (queried e')" by simp
    have "dryRun e \<Longrightarrow> written = []"
      using assms(2) x None dr by (auto simp: Extract_def Let_def)
    with nf x None show ?thesis by auto
  qed
qed

lemma failing_run:
  "fst (Extract [''public.categories''] quiet_writer failing_extractor)
     = Some (Wrapped ''extracting self-ref public.categories''
        (Wrapped ''self-ref query for public.categories'' (DbError ''connection reset'')))"
  "snd (snd (Extract [''public.categories''] quiet_writer failing_extractor)) = []"
  "anyFailed (queried (fst (snd (Extract [''public.categories''] quiet_writer failing_extractor))))"
  "queried failing_extractor = []"
  by code_simp+

theorem extract_query_error_no_write_witness:
  "queried failing_extractor = []
   \<and> anyFailed (queried (fst (snd (Extract [''public.categories''] quiet_writer failing_extractor))))
   \<and> fst (Extract [''public.categories''] quiet_writer failing_extractor)
     = Some (Wrapped ''extracting self-ref public.categories''
        (Wrapped ''self-ref query for public.categories'' (DbError ''connection reset'')))
   \<and> snd (snd (Extract [''public.categories''] quiet_writer failing_extractor)) = []"
  using extract_query_error_no_write[of failing_extractor "[''public.categories'']" quiet_writer
     "fst (Extract [''public.categories''] quiet_writer failing_extractor)"
     "fst (snd (Extract [''public.categories''] quiet_writer failing_extractor))"
     "snd (snd (Extract [''public.categories''] quiet_writer failing_extractor))"]
    failing_run
  by simp

lemma extractPK_None_iff: "extractPK table vals = None \<longleftrightarrow> PrimaryKey table = None"
  by (simp add: extractPK_def pkColumnIndexes_def split: option.splits)

lemma addRow_collected:
  "sliceAt (collected (addRow e table vals)) n =
     (if n = FullName table then sliceAt (collected e) n @ [vals] else sliceAt (collected e) n)"
  by (simp add: addRow_def Let_def sliceAt_def split: option.split)

lemma addRow_collectedPKs:
  "sliceAt (collectedPKs (addRow e table vals)) n =
     (case extractPK table vals of
        None \<Rightarrow> sliceAt (collectedPKs e) n
      | Some pk \<Rightarrow> if n = FullName table then sliceAt (collectedPKs e) n @ [pk]
                   else sliceAt (collectedPKs e) n)"
  by (simp add: addRow_def Let_def sliceAt_def split: option.split)

lemma addRow_pkRowsEq:
  "keepsPK name table \<Longrightarrow> pkRowsEq e name \<Longrightarrow> pkRowsEq (addRow e table vals) name"
  using extractPK_None_iff[of table vals]
  by (auto simp: pkRowsEq_def keepsPK_def addRow_collected addRow_collectedPKs split: option.split)

lemma keeps_refl [simp]: "keeps name e e"
  by (simp add: keeps_def)

lemma keeps_trans: "keeps name e e1 \<Longrightarrow> keeps name e1 e2 \<Longrightarrow> keeps name e e2"
  by (auto simp: keeps_def intro: sameSetup_trans)

lemma keeps_printf [simp]: "keeps name e (printf e' s) = keeps name e e'"
  by (simp add: keeps_def pkRowsEq_def sameSetup_def)

lemma keeps_addRow: "keepsPK name table \<Longrightarrow> keeps name e (addRow e table vals)"
  by (simp add: keeps_def addRow_pkRowsEq)

lemma keeps_Query: "Query e query args = (r, e') \<Longrightarrow> keeps name e e'"
  using Query_frame[of e query args r e'] by (simp add: keeps_def pkRowsEq_def)

lemma keeps_drainRows:
  "keepsPK name table \<Longrightarrow> keeps name e (snd (drainRows e table rs))"
proof (induction e table rs rule: drainRows.induct)
  case (1 e table)
  show ?case by simp
next
  case (2 e table err rest)
  show ?case by simp
next
  case (3 e table vals rest)
  then show ?case using keeps_trans[OF keeps_addRow] by simp
qed

lemma keeps_runQuery:
  assumes "keepsPK name table"
  shows "keeps name e (snd (runQuery e table query args))"
proof -
  obtain r e1 where q: "Query e query args = (r, e1)" by (cases "Query e query args")
  note k1 = keeps_Query[OF q, of name]
  show ?thesis
  proof (cases r)
    case (QueryFailed err)
    with q k1 show ?thesis by (simp add: runQuery_def)
  next
    case (QueryRows rs final)
    obtain res e2 where d: "drainRows e1 table rs = (res, e2)" by (cases "drainRows e1 table rs")
    from keeps_drainRows[OF assms, of e1 rs] d k1 have "keeps name e e2"
      by (auto intro: keeps_trans)
    with q QueryRows d show ?thesis
      by (cases res) (simp_all add: runQuery_def)
  qed
qed

lemma keeps_runQuery_after:
  "keepsPK name table \<Longrightarrow> keeps name e e1 \<Longrightarrow> keeps name e (snd (runQuery e1 table query args))"
  using keeps_runQuery keeps_trans by blast

lemma keeps_extractRoot:
  "keepsPK name table \<Longrightarrow> keeps name e (snd (extractRoot e table where'))"
  unfolding extractRoot_def Let_def
  by (auto intro!: keeps_runQuery_after)

lemma keeps_extractChild:
  "keepsPK name table \<Longrightarrow> keeps name e (snd (extractChild e table))"
  unfolding extractChild_def Let_def
  by (auto split: sum.split intro!: keeps_runQuery_after)

lemma keeps_addNewRows:
  "keepsPK name table \<Longrightarrow> keeps name e (addNewRows e table existing rows)"
proof (induction e table existing rows rule: addNewRows.induct)
  case (1 e table existing)
  show ?case by simp
next
  case (2 e table existing row rest)
  then show ?case
    using keeps_trans[OF keeps_addRow] by (auto simp: Let_def)
qed

lemma keeps_fetchSelfRefRows:
  "keeps name e (snd (fetchSelfRefRows e table fk seedPKs v))"
proof -
  obtain r e' where f: "fetchSelfRefRows e table fk seedPKs v = (r, e')"
    by (cases "fetchSelfRefRows e table fk seedPKs v")
  from fetchSelfRefRows_frame(1-3)[OF f] f show ?thesis
    by (simp add: keeps_def pkRowsEq_def)
qed

lemma keeps_selfRefLoop:
  "keepsPK name table \<Longrightarrow> keeps name e (snd (selfRefLoop e table seedPKs fks))"
proof (induction e table seedPKs fks rule: selfRefLoop.induct)
  case (1 e table seedPKs)
  show ?case by simp
next
  case (2 e table seedPKs fk fks)
  obtain r e1 where f: "fetchSelfRefRows e table fk seedPKs (verbose e \<or> dryRun e) = (r, e1)"
    by (cases "fetchSelfRefRows e table fk seedPKs (verbose e \<or> dryRun e)")
  have k1: "keeps name e e1"
    using keeps_fetchSelfRefRows[of name e table fk seedPKs "verbose e \<or> dryRun e"] f by simp
  show ?case
  proof (cases r)
    case (Inl err)
    with f k1 show ?thesis by simp
  next
    case (Inr extraRows)
    let ?e2 = "addNewRows e1 table (pkSet e1 table) extraRows"
    let ?e3 = "if verbose ?e2
               then printf ?e2 (''  [self-ref] '' @ FullName table @ '': total ''
                      @ itoa (int (length (sliceAt (collected ?e2) (FullName table))))
                      @ '' rows after recursive'' @ [newline])
               else ?e2"
    have ih: "keeps name ?e3 (snd (selfRefLoop ?e3 table seedPKs fks))"
      using "2.IH"[OF f[symmetric] Inr refl refl "2.prems"] by (simp add: Let_def)
    have "keeps name e ?e3"
      using keeps_trans[OF k1 keeps_addNewRows[OF "2.prems", of e1 "pkSet e1 table" extraRows]]
      by simp
    from keeps_trans[OF this ih] f Inr show ?thesis by (simp add: Let_def)
  qed
qed

lemma keeps_extractSelfRef:
  "keepsPK name table \<Longrightarrow> keeps name e (snd (extractSelfRef e table selfRefs))"
  by (simp add: extractSelfRef_def Let_def keeps_selfRefLoop)

lemma snd_wrap [simp]: "snd (wrap msg r) = snd r"
  by (cases r) (auto simp: wrap_def split: option.splits)

lemma fst_wrap_None [simp]: "fst (wrap msg r) = None \<longleftrightarrow> fst r = None"
  by (cases r) (auto simp: wrap_def split: option.splits)

lemma keeps_extractTable:
  assumes "\<forall>n t. Tables (graph e) n = Some t \<longrightarrow> keepsPK name t"
  shows "keeps name e (snd (extractTable e tableName))"
proof (cases "Tables (graph e) tableName")
  case None
  then show ?thesis by (simp add: extractTable_def)
next
  case (Some tbl)
  with assms have kp: "keepsPK name tbl" by blast
  let ?first = "case rootWhere (cfg e) (TableName tbl) of
                   Some where' \<Rightarrow>
                     wrap (''extracting root '' @ tableName) (extractRoot e tbl where')
                 | None \<Rightarrow>
                     if length (sliceAt (Parents (graph e)) tableName) > 0
                     then wrap (''extracting child '' @ tableName) (extractChild e tbl)
                     else (None, e)"
  have k1: "keeps name e (snd ?first)"
    using keeps_extractRoot[OF kp] keeps_extractChild[OF kp] by (auto split: option.split)
  obtain res e1 where f: "?first = (res, e1)" by (cases ?first)
  show ?thesis
  proof (cases res)
    case (Some err)
    with f k1 \<open>Tables (graph e) tableName = Some tbl\<close> show ?thesis
      by (simp add: extractTable_def)
  next
    case None
    let ?second = "case SelfRefs (graph e1) tableName of
                  None \<Rightarrow> (None, e1)
                | Some selfRefs \<Rightarrow>
                    if length selfRefs > 0
                    then wrap (''extracting self-ref '' @ tableName)
                           (extractSelfRef e1 tbl selfRefs)
                    else (None, e1)"
    have k2: "keeps name e1 (snd ?second)"
      using keeps_extractSelfRef[OF kp] by (auto split: option.split)
    have "extractTable e tableName = ?second"
      using f None \<open>Tables (graph e) tableName = Some tbl\<close> by (simp add: extractTable_def)
    with keeps_trans[OF _ k2] k1 f show ?thesis by simp
  qed
qed

lemma keeps_extractTables:
  "\<forall>n t. Tables (graph e) n = Some t \<longrightarrow> keepsPK name t \<Longrightarrow>
     keeps name e (snd (extractTables e order))"
proof (induction order arbitrary: e)
  case Nil
  show ?case by simp
next
  case (Cons tableName rest)
  obtain res e1 where f: "extractTable e tableName = (res, e1)" by (cases "extractTable e tableName")
  have k: "keeps name e e1" using keeps_extractTable[OF Cons.prems, of tableName] f by simp
  then have "graph e1 = graph e" by (simp add: keeps_def sameSetup_def)
  with Cons.prems have "\<forall>n t. Tables (graph e1) n = Some t \<longrightarrow> keepsPK name t" by simp
  from Cons.IH[OF this] k f show ?case
    by (cases res) (auto intro: keeps_trans)
qed

lemma Extract_state:
  "fst (snd (Extract keys w e))
     = snd (extractTables (cycleWarning keys e) (traversalOrder keys (graph e)))"
  by (auto simp: Extract_def Let_def split: option.splits prod.splits)

lemma keeps_cycleWarning: "keeps name e (cycleWarning keys e)"
  by (simp add: keeps_def cycleWarning_def Let_def sameSetup_def pkRowsEq_def)


lemma pkKey_cong: "fmtV e' = fmtV e \<Longrightarrow> pkKey e' table = pkKey e table"
  by (rule ext) (simp add: pkKey_def)

lemma pkKey_eq: "extractPK table r = extractPK table r' \<Longrightarrow> pkKey e table r = pkKey e table r'"
  by (simp add: pkKey_def)

lemma addNewRows_distinct:
  "pkKey e table ` set (rowsOf e table) \<subseteq> existing \<Longrightarrow>
   distinct (map (extractPK table) (rowsOf e table)) \<Longrightarrow>
     distinct (map (extractPK table) (rowsOf (addNewRows e table existing rows) table))
     \<and> (\<exists>added. rowsOf (addNewRows e table existing rows) table = rowsOf e table @ added)"
proof (induction e table existing rows rule: addNewRows.induct)
  case (1 e table existing)
  then show ?case by simp
next
  case (2 e table existing row rest)
  let ?key = "pkKey e table row"
  show ?case
  proof (cases "?key \<in> existing")
    case True
    then have eq: "addNewRows e table existing (row # rest) = addNewRows e table existing rest"
      by (simp add: Let_def)
    have "\<not> ?key \<notin> existing" using True by simp
    from "2.IH"(2)[OF refl this "2.prems"] show ?thesis
      unfolding eq .
  next
    case False
    let ?e1 = "addRow e table row"
    have eq: "addNewRows e table existing (row # rest)
                = addNewRows ?e1 table (insert ?key existing) rest"
      using False by (simp add: Let_def)
    have rows1: "rowsOf ?e1 table = rowsOf e table @ [row]"
      by (simp add: rowsOf_def addRow_collected)
    have k: "pkKey ?e1 table = pkKey e table" by (rule pkKey_cong) simp
    have fresh: "extractPK table row \<notin> extractPK table ` set (rowsOf e table)"
    proof
      assume "extractPK table row \<in> extractPK table ` set (rowsOf e table)"
      then obtain r where r: "r \<in> set (rowsOf e table)" "extractPK table row = extractPK table r"
        by blast
      from r(2) have "?key = pkKey e table r" by (rule pkKey_eq)
      with r(1) have "?key \<in> pkKey e table ` set (rowsOf e table)" by blast
      with "2.prems"(1) have "?key \<in> existing" by blast
      with False show False by simp
    qed
    have p1: "pkKey ?e1 table ` set (rowsOf ?e1 table) \<subseteq> insert ?key existing"
      unfolding rows1 k using "2.prems"(1) by auto
    have p2: "distinct (map (extractPK table) (rowsOf ?e1 table))"
      unfolding rows1 using "2.prems"(2) fresh by simp
    from "2.IH"(1)[OF refl False p1 p2]
    obtain added where
      d: "distinct (map (extractPK table)
            (rowsOf (addNewRows ?e1 table (insert ?key existing) rest) table))"
      and a: "rowsOf (addNewRows ?e1 table (insert ?key existing) rest) table
                = rowsOf ?e1 table @ added"
      by blast
    from a have "rowsOf (addNewRows ?e1 table (insert ?key existing) rest) table
                   = rowsOf e table @ (row # added)"
      by (simp add: rows1)
    with d show ?thesis unfolding eq by blast
  qed
qed

lemma selfRefLoop_distinct:
  "distinct (map (extractPK table) (rowsOf e table)) \<Longrightarrow>
     distinct (map (extractPK table) (rowsOf (snd (selfRefLoop e table seedPKs fks)) table))
     \<and> (\<exists>added. rowsOf (snd (selfRefLoop e table seedPKs fks)) table = rowsOf e table @ added)"
proof (induction e table seedPKs fks rule: selfRefLoop.induct)
  case (1 e table seedPKs)
  then show ?case by simp
next
  case (2 e table seedPKs fk fks)
  obtain r e1 where f: "fetchSelfRefRows e table fk seedPKs (verbose e \<or> dryRun e) = (r, e1)"
    by (cases "fetchSelfRefRows e table fk seedPKs (verbose e \<or> dryRun e)")
  have r1: "rowsOf e1 table = rowsOf e table"
    using fetchSelfRefRows_frame(2)[OF f] by (simp add: rowsOf_def)
  show ?case
  proof (cases r)
    case (Inl err)
    with f r1 "2.prems" show ?thesis by simp
  next
    case (Inr extraRows)
    let ?e2 = "addNewRows e1 table (pkSet e1 table) extraRows"
    let ?e3 = "if verbose ?e2
               then printf ?e2 (''  [self-ref] '' @ FullName table @ '': total ''
                      @ itoa (int (length (sliceAt (collected ?e2) (FullName table))))
                      @ '' rows after recursive'' @ [newline])
               else ?e2"
    have "pkKey e1 table ` set (rowsOf e1 table) \<subseteq> pkSet e1 table"
      by (simp add: pkSet_def rowsOf_def)
    moreover have "distinct (map (extractPK table) (rowsOf e1 table))"
      using "2.prems" r1 by simp
    ultimately obtain added where d2: "distinct (map (extractPK table) (rowsOf ?e2 table))"
      and a2': "rowsOf ?e2 table = rowsOf e1 table @ added"
      using addNewRows_distinct[of e1 table "pkSet e1 table" extraRows] by blast
    from a2' r1 have a2: "rowsOf ?e2 table = rowsOf e table @ added" by simp
    have r3: "rowsOf ?e3 table = rowsOf ?e2 table" by (simp add: rowsOf_def)
    from "2.IH"[OF f[symmetric] Inr refl refl] d2 r3
    obtain added' where
      "distinct (map (extractPK table) (rowsOf (snd (selfRefLoop ?e3 table seedPKs fks)) table))"
      "rowsOf (snd (selfRefLoop ?e3 table seedPKs fks)) table = rowsOf ?e3 table @ added'"
      by (auto simp: Let_def)
    with f Inr a2 r3 show ?thesis by (simp add: Let_def)
  qed
qed

lemma extractSelfRef_distinct:
  "distinct (map (extractPK table) (rowsOf e table)) \<Longrightarrow>
     distinct (map (extractPK table) (rowsOf (snd (extractSelfRef e table selfRefs)) table))
     \<and> (\<exists>added. rowsOf (snd (extractSelfRef e table selfRefs)) table = rowsOf e table @ added)"
  using selfRefLoop_distinct by (simp add: extractSelfRef_def Let_def)

text \<open>
  Claim C7. Let the tables of the graph be stored under their full names, let \<open>table\<close>
  be the table stored under \<open>name\<close>, and let it have a primary key. If the extractor
  holds as many key tuples as rows for \<open>name\<close> (as the fresh extractor does), then so
  does the state after \<open>addRow\<close>, after each of the three extraction steps for the
  table, after the loop over any list of tables, whether it ends with an error or not,
  and at the end of \<open>Extract\<close>. Moreover, if the key tuples of the collected rows of
  the table are pairwise distinct before the self-reference expansion, they are pairwise
  distinct after it, and the rows collected before are kept in place: a fetched row is
  added only when its key tuple is not there yet.
\<close>

theorem collected_pk_invariant:
  assumes keyed: "\<forall>n t. Tables (graph e) n = Some t \<longrightarrow> FullName t = n"
      and tbl: "Tables (graph e) name = Some table" and pk: "PrimaryKey table \<noteq> None"
      and init: "pkRowsEq e name"
  shows "pkRowsEq (addRow e table vals) name
       \<and> pkRowsEq (snd (extractRoot e table where')) name
       \<and> pkRowsEq (snd (extractChild e table)) name
       \<and> pkRowsEq (snd (extractSelfRef e table selfRefs)) name
       \<and> pkRowsEq (snd (extractTables e order)) name
       \<and> pkRowsEq (fst (snd (Extract keys w e))) name
       \<and> (distinct (map (extractPK table) (rowsOf e table)) \<longrightarrow>
            distinct (map (extractPK table)
              (rowsOf (snd (extractSelfRef e table selfRefs)) table))
            \<and> take (length (rowsOf e table))
                 (rowsOf (snd (extractSelfRef e table selfRefs)) table) = rowsOf e table)"
proof -
  have all: "\<forall>n t. Tables (graph e) n = Some t \<longrightarrow> keepsPK name t"
  proof (intro allI impI)
    fix n t assume t: "Tables (graph e) n = Some t"
    show "keepsPK name t"
      unfolding keepsPK_def
    proof
      assume "FullName t = name"
      with keyed t have "n = name" by auto
      with t tbl have "t = table" by simp
      with pk show "PrimaryKey t \<noteq> None" by simp
    qed
  qed
  with tbl have kp: "keepsPK name table" by blast
  have all': "\<forall>n t. Tables (graph (cycleWarning keys e)) n = Some t \<longrightarrow> keepsPK name t"
    using all keeps_cycleWarning[of name e keys] by (simp add: keeps_def sameSetup_def)
  have c6: "pkRowsEq (fst (snd (Extract keys w e))) name"
    using keeps_trans[OF keeps_cycleWarning keeps_extractTables[OF all']] init
    by (simp add: Extract_state keeps_def)
  have c7: "distinct (map (extractPK table) (rowsOf e table)) \<longrightarrow>
            distinct (map (extractPK table)
              (rowsOf (snd (extractSelfRef e table selfRefs)) table))
            \<and> take (length (rowsOf e table))
                 (rowsOf (snd (extractSelfRef e table selfRefs)) table) = rowsOf e table"
    using extractSelfRef_distinct[of table e selfRefs] by auto
  have c1: "pkRowsEq (addRow e table vals) name" by (rule addRow_pkRowsEq[OF kp init])
  have c2: "pkRowsEq (snd (extractRoot e table where')) name"
    using keeps_extractRoot[OF kp, of e where'] init by (simp add: keeps_def)
  have c3: "pkRowsEq (snd (extractChild e table)) name"
    using keeps_extractChild[OF kp, of e] init by (simp add: keeps_def)
  have c4: "pkRowsEq (snd (extractSelfRef e table selfRefs)) name"
    using keeps_extractSelfRef[OF kp, of e selfRefs] init by (simp add: keeps_def)
  have c5: "pkRowsEq (snd (extractTables e order)) name"
    using keeps_extractTables[OF all, of order] init by (simp add: keeps_def)
  from c1 c2 c3 c4 c5 c6 c7 show ?thesis by blast
qed

lemma New_pkRowsEq: "pkRowsEq (New pool' fmtV' cfg' g verbose' dryRun') name"
  by (simp add: pkRowsEq_def New_def sliceAt_def)

lemma categories_after_root_graph: "graph categories_after_root = categories_graph"
proof -
  have "sameSetup categories_extractor categories_after_root"
    using extractRoot_quiet[of categories_extractor categories_table "''id IN (7)''"]
    by (simp add: quiet_def categories_after_root_def)
  then show ?thesis by (simp add: sameSetup_def categories_extractor_def New_def)
qed

lemma categories_run:
  "pkRowsEq categories_after_root ''public.categories''"
  "distinct (map (extractPK categories_table) (rowsOf categories_after_root categories_table))"
  "rowsOf categories_after_root categories_table = [[Other ''7'', Other ''4'']]"
  "rowsOf (snd (extractSelfRef categories_after_root categories_table [categories_fk]))
     categories_table
     = [[Other ''7'', Other ''4''], [Other ''4'', Other ''2''], [Other ''2'', Other ''1''],
        [Other ''1'', Nil]]"
  "sliceAt (collectedPKs (snd (extractSelfRef categories_after_root categories_table
       [categories_fk]))) ''public.categories''
     = [[Other ''7''], [Other ''4''], [Other ''2''], [Other ''1'']]"
  by code_simp+

theorem collected_pk_invariant_witness:
  "Tables (graph categories_after_root) ''public.categories'' = Some categories_table
   \<and> pkRowsEq categories_after_root ''public.categories''
   \<and> distinct (map (extractPK categories_table) (rowsOf categories_after_root categories_table))
   \<and> rowsOf categories_after_root categories_table = [[Other ''7'', Other ''4'']]
   \<and> rowsOf (snd (extractSelfRef categories_after_root categories_table [categories_fk]))
         categories_table
       = [[Other ''7'', Other ''4''], [Other ''4'', Other ''2''], [Other ''2'', Other ''1''],
          [Other ''1'', Nil]]
   \<and> sliceAt (collectedPKs (snd (extractSelfRef categories_after_root categories_table
         [categories_fk]))) ''public.categories''
       = [[Other ''7''], [Other ''4''], [Other ''2''], [Other ''1'']]
   \<and> pkRowsEq (snd (extractSelfRef categories_after_root categories_table [categories_fk]))
         ''public.categories''
   \<and> distinct (map (extractPK categories_table)
         (rowsOf (snd (extractSelfRef categories_after_root categories_table [categories_fk]))
            categories_table))"
proof -
  have keyed: "\<forall>n t. Tables (graph categories_after_root) n = Some t \<longrightarrow> FullName t = n"
    by (simp add: categories_after_root_graph categories_graph_def categories_table_def
        FullName_def)
  have tbl: "Tables (graph categories_after_root) ''public.categories'' = Some categories_table"
    by (simp add: categories_after_root_graph categories_graph_def)
  have pk: "PrimaryKey categories_table \<noteq> None"
    by (simp add: categories_table_def)
  from collected_pk_invariant[OF keyed tbl pk categories_run(1),
      of "[]" "[]" "[categories_fk]" "[]" "[]" quiet_writer]
    tbl categories_run
  show ?thesis by simp
qed

end
